theory Spec2Isabelle
  imports Complex_Main "HOL-Library.AList"
begin

section \<open>Errors\<close>

text \<open>
  What the code throws: the \<open>TypeError\<close> of reading a property of \<open>undefined\<close>, and
  the four errors of the parameter mediator with the names in their messages (for an
  unknown variable, the variable and the expression).
\<close>

datatype error =
    TypeError
  | BothValueAndExpr string
  | SetterAlreadyAllocated string
  | SetterNotFound string
  | UnknownVariable string string

section \<open>Sample-facet placement (the vertex shader include)\<close>

text \<open>
  The shader keeps the facet band of the sample being drawn in the uniform
  \<open>uSampleFacet\<close>, a \<open>vec4\<close> (left pos, left height, right pos, right height), and the
  transition offset in \<open>uTransitionOffset\<close>. The uniforms are arguments here. A GLSL
  \<open>float\<close> is read as a real number: rounding, infinities and NaN are outside the model.
\<close>

type_synonym vec2 = "real \<times> real"
type_synonym vec4 = "real \<times> real \<times> real \<times> real"

text \<open>The swizzles \<open>.xy\<close> and \<open>.zw\<close> of a \<open>vec4\<close>.\<close>

fun xy :: "vec4 \<Rightarrow> vec2" where
  "xy (a, b, c, d) = (a, b)"

fun zw :: "vec4 \<Rightarrow> vec2" where
  "zw (a, b, c, d) = (c, d)"

text \<open>
  The GLSL built-ins \<open>clamp\<close>, \<open>smoothstep\<close> and \<open>mix\<close> (the latter on \<open>vec2\<close> with a
  scalar weight), as the GLSL ES specification defines them.
\<close>

definition clamp :: "real \<Rightarrow> real \<Rightarrow> real \<Rightarrow> real" where
  "clamp x lo hi = min (max x lo) hi"

definition smoothstep :: "real \<Rightarrow> real \<Rightarrow> real \<Rightarrow> real" where
  "smoothstep edge0 edge1 x =
     (let t = clamp ((x - edge0) / (edge1 - edge0)) 0 1 in t * t * (3 - 2 * t))"

definition mix :: "vec2 \<Rightarrow> vec2 \<Rightarrow> real \<Rightarrow> vec2" where
  "mix a b t = (fst a * (1 - t) + fst b * t, snd a * (1 - t) + snd b * t)"

definition isFacetedSamples :: "vec4 \<Rightarrow> bool" where
  "isFacetedSamples uSampleFacet = (uSampleFacet \<noteq> (0, 1, 0, 1))"

definition isInTransit :: "vec4 \<Rightarrow> bool" where
  "isInTransit uSampleFacet = (xy uSampleFacet \<noteq> zw uSampleFacet)"

definition applySampleFacet :: "vec4 \<Rightarrow> real \<Rightarrow> vec2 \<Rightarrow> vec2" where
  "applySampleFacet uSampleFacet uTransitionOffset pos =
     (if \<not> isFacetedSamples uSampleFacet then pos
      else
        let left = xy uSampleFacet;
            right = zw uSampleFacet;
            interpolated =
              (if isInTransit uSampleFacet then
                 (let fraction =
                        smoothstep 0 (7 / 10 + uTransitionOffset)
                          ((fst pos - uTransitionOffset) * 2)
                  in mix left right fraction)
               else left)
        in (fst pos, fst interpolated + snd pos * snd interpolated))"

section \<open>Vertex builders (gl/dataToVertices.js)\<close>

text \<open>
  A JavaScript number is read as a real number here: rounding, the infinities and NaN
  are outside the model, so every coordinate and both bounds of the visible range are
  finite.
\<close>

subsection \<open>The array builder\<close>

text \<open>
  Modelled from the spec: ArrayBuilder (gl/arrayBuilder.js) is imported by the vertex
  builders and is not among the sources. The spec describes the variable store as
  holding one entry per vertex. The model keeps the values that the converters and the
  updaters have set last (\<open>current\<close>) and the vertices pushed so far, oldest first
  (\<open>pushed\<close>): \<open>pushAll\<close> appends the current values as one vertex, \<open>vertexCount\<close> is
  the number of vertices pushed, \<open>updateFromDatum\<close> lets the converters overwrite the
  values they compute from a datum, and \<open>pushFromDatum\<close> does both.
\<close>

record 'v arrayBuilder =
  current :: 'v
  pushed :: "'v list"

definition pushAll :: "'v arrayBuilder \<Rightarrow> 'v arrayBuilder" where
  "pushAll b = b\<lparr>pushed := pushed b @ [current b]\<rparr>"

definition vertexCount :: "'v arrayBuilder \<Rightarrow> nat" where
  "vertexCount b = length (pushed b)"

definition updateFromDatum :: "('d \<Rightarrow> 'v \<Rightarrow> 'v) \<Rightarrow> 'd \<Rightarrow> 'v arrayBuilder \<Rightarrow> 'v arrayBuilder" where
  "updateFromDatum conv d b = b\<lparr>current := conv d (current b)\<rparr>"

definition pushFromDatum :: "('d \<Rightarrow> 'v \<Rightarrow> 'v) \<Rightarrow> 'd \<Rightarrow> 'v arrayBuilder \<Rightarrow> 'v arrayBuilder" where
  "pushFromDatum conv d b = pushAll (updateFromDatum conv d b)"

text \<open>A sequence of statements on the array builder, run in order.\<close>

definition run :: "('b \<Rightarrow> 'b) list \<Rightarrow> 'b \<Rightarrow> 'b" where
  "run ops b = fold (\<lambda>f. f) ops b"

subsection \<open>VertexBuilder\<close>

record rangeEntry =
  offset :: nat
  count :: nat

text \<open>
  \<open>rangeMap\<close> is a JavaScript \<open>Map\<close>: an association list in insertion order, where
  \<open>set\<close> on a key that is present replaces its value in place and on a new key appends
  (\<open>AList.update\<close>). \<open>converters\<close> stands for the converters of the variable channels
  (what \<open>variableBuilder.updateFromDatum\<close> applies); the constant builder, whose values
  do not depend on the data, is left out.
\<close>

record ('d, 'v) vertexBuilder =
  converters :: "'d \<Rightarrow> 'v \<Rightarrow> 'v"
  variableBuilder :: "'v arrayBuilder"
  index :: nat
  rangeMap :: "(string \<times> rangeEntry) list"

text \<open>The constructor: no vertex yet, \<open>index = 0\<close>, an empty \<open>rangeMap\<close>.\<close>

definition newVertexBuilder :: "('d \<Rightarrow> 'v \<Rightarrow> 'v) \<Rightarrow> 'v \<Rightarrow> ('d, 'v) vertexBuilder" where
  "newVertexBuilder conv v0 =
     \<lparr>converters = conv,
      variableBuilder = \<lparr>current = v0, pushed = []\<rparr>,
      index = 0,
      rangeMap = []\<rparr>"

text \<open>The loop of \<open>VertexBuilder.addBatch\<close>: one vertex and one index step per point.\<close>

fun addPoints :: "'d list \<Rightarrow> ('d, 'v, 'z) vertexBuilder_scheme \<Rightarrow> ('d, 'v, 'z) vertexBuilder_scheme" where
  "addPoints [] vb = vb"
| "addPoints (p # ps) vb =
     addPoints ps
       (vb\<lparr>variableBuilder := pushFromDatum (converters vb) p (variableBuilder vb),
           index := index vb + 1\<rparr>)"

definition addBatch :: "string \<Rightarrow> 'd list \<Rightarrow> ('d, 'v, 'z) vertexBuilder_scheme \<Rightarrow> ('d, 'v, 'z) vertexBuilder_scheme" where
  "addBatch key points vb =
     (let offs = index vb;
          vb' = addPoints points vb;
          cnt = index vb' - offs
      in if cnt \<noteq> 0
         then vb'\<lparr>rangeMap := AList.update key \<lparr>offset = offs, count = cnt\<rparr> (rangeMap vb')\<rparr>
         else vb')"

text \<open>
  \<open>toArrays\<close> is defined once, in VertexBuilder, and the rect, rule and text builders
  inherit it: the vertex count it reports is \<open>index\<close>. In the result,
  \<open>vertexCountOut\<close> and \<open>rangeMapOut\<close> are the properties \<open>vertexCount\<close> and
  \<open>rangeMap\<close>; the constants and the component numbers, which do not depend on the
  batches, are left out.
\<close>

record 'v arrays =
  arrays :: "'v list"
  vertexCountOut :: nat
  rangeMapOut :: "(string \<times> rangeEntry) list"

definition toArrays :: "('d, 'v, 'z) vertexBuilder_scheme \<Rightarrow> 'v arrays" where
  "toArrays vb =
     \<lparr>arrays = pushed (variableBuilder vb),
      vertexCountOut = index vb,
      rangeMapOut = rangeMap vb\<rparr>"

subsection \<open>RectVertexBuilder\<close>

record 'a rectVertex =
  attr_x :: real
  attr_y :: real
  width :: real
  height :: real
  datumAttrs :: 'a

text \<open>
  The encoders of a rect mark are external: the accessors of the four positional
  channels and the squeeze encoder are fields of the builder. A falsy squeeze value is
  the empty string.
\<close>

record ('d, 'a) rectVertexBuilder = "('d, 'a rectVertex) vertexBuilder" +
  visibleRange :: "real \<times> real"
  xAccessor :: "'d \<Rightarrow> real"
  x2Accessor :: "'d \<Rightarrow> real"
  yAccessor :: "'d \<Rightarrow> real"
  y2Accessor :: "'d \<Rightarrow> real"
  squeeze :: "'d \<Rightarrow> string"

text \<open>
  The constructor: the state of the VertexBuilder constructor (\<open>super(...)\<close>) and the
  visible range. The tesselation threshold is stored and never read.
\<close>

definition newRectVertexBuilder :: "('d \<Rightarrow> 'a rectVertex \<Rightarrow> 'a rectVertex) \<Rightarrow> 'a rectVertex
    \<Rightarrow> real \<times> real \<Rightarrow> ('d \<Rightarrow> real) \<Rightarrow> ('d \<Rightarrow> real) \<Rightarrow> ('d \<Rightarrow> real) \<Rightarrow> ('d \<Rightarrow> real)
    \<Rightarrow> ('d \<Rightarrow> string) \<Rightarrow> ('d, 'a) rectVertexBuilder" where
  "newRectVertexBuilder conv v0 vr xa x2a ya y2a sq =
     \<lparr>converters = conv,
      variableBuilder = \<lparr>current = v0, pushed = []\<rparr>,
      index = 0,
      rangeMap = [],
      visibleRange = vr,
      xAccessor = xa,
      x2Accessor = x2a,
      yAccessor = ya,
      y2Accessor = y2a,
      squeeze = sq\<rparr>"

definition updateX :: "real \<Rightarrow> 'a rectVertex arrayBuilder \<Rightarrow> 'a rectVertex arrayBuilder" where
  "updateX v b = b\<lparr>current := (current b)\<lparr>attr_x := v\<rparr>\<rparr>"

definition updateY :: "real \<Rightarrow> 'a rectVertex arrayBuilder \<Rightarrow> 'a rectVertex arrayBuilder" where
  "updateY v b = b\<lparr>current := (current b)\<lparr>attr_y := v\<rparr>\<rparr>"

definition updateWidth :: "real \<Rightarrow> 'a rectVertex arrayBuilder \<Rightarrow> 'a rectVertex arrayBuilder" where
  "updateWidth v b = b\<lparr>current := (current b)\<lparr>width := v\<rparr>\<rparr>"

definition updateHeight :: "real \<Rightarrow> 'a rectVertex arrayBuilder \<Rightarrow> 'a rectVertex arrayBuilder" where
  "updateHeight v b = b\<lparr>current := (current b)\<lparr>height := v\<rparr>\<rparr>"

record squeezeCoords =
  s_ax :: real
  s_ay :: real
  s_bx :: real
  s_by :: real
  s_cx :: real
  s_cy :: real

text \<open>\<open>_squeeze\<close>: the \<open>switch\<close> has an empty default, which returns \<open>undefined\<close> (\<open>None\<close>).\<close>

definition squeeze_coords :: "string \<Rightarrow> real \<Rightarrow> real \<Rightarrow> real \<Rightarrow> real \<Rightarrow> squeezeCoords option" where
  "squeeze_coords sq x x2 y y2 =
     (if sq = ''bottom'' then
        Some \<lparr>s_ax = x, s_ay = y2, s_bx = (x + x2) / 2, s_by = y, s_cx = x2, s_cy = y2\<rparr>
      else if sq = ''top'' then
        Some \<lparr>s_ax = x, s_ay = y, s_bx = x2, s_by = y, s_cx = (x + x2) / 2, s_cy = y2\<rparr>
      else if sq = ''left'' then
        Some \<lparr>s_ax = x, s_ay = (y + y2) / 2, s_bx = x2, s_by = y, s_cx = x2, s_cy = y2\<rparr>
      else if sq = ''right'' then
        Some \<lparr>s_ax = x, s_ay = y, s_bx = x2, s_by = (y + y2) / 2, s_cx = x, s_cy = y2\<rparr>
      else None)"

text \<open>
  One round of the tile loop (\<open>for (let i = 0; i <= tileCount; i++)\<close>). Every real
  width is finite, so \<open>tx\<close> is the branch \<open>x + width * frac\<close> of the source.
\<close>

definition tileStep :: "real \<Rightarrow> real \<Rightarrow> real \<Rightarrow> real \<Rightarrow> real \<Rightarrow> nat \<Rightarrow> nat
    \<Rightarrow> 'a rectVertex arrayBuilder \<Rightarrow> 'a rectVertex arrayBuilder" where
  "tileStep x y y2 wd ht tileCount i b =
     (let frac = real i / real tileCount;
          w = (if i = 0 then - wd else if i \<ge> tileCount then wd else 0);
          tx = x + wd * frac
      in run [updateWidth w, updateX tx, updateY y, updateHeight (- ht), pushAll,
              updateY y2, updateHeight ht, pushAll] b)"

text \<open>
  The body of the loop of \<open>RectVertexBuilder.addBatch\<close> from \<open>let y = yAccessor(d)\<close>
  on: the vertices of one datum whose horizontal extent, already swapped and clipped, is
  \<open>[x, x2]\<close>. An unknown squeeze name makes \<open>_squeeze\<close> return \<open>undefined\<close>, and
  reading \<open>c.ax\<close> throws.
\<close>

definition emitRect :: "('d, 'a) rectVertexBuilder \<Rightarrow> 'd \<Rightarrow> real \<Rightarrow> real
    \<Rightarrow> error + ('d, 'a) rectVertexBuilder" where
  "emitRect rb d x x2 =
     (let y0 = yAccessor rb d;
          y20 = y2Accessor rb d;
          y = (if y0 > y20 then y20 else y0);
          y2 = (if y0 > y20 then y0 else y20);
          wd = x2 - x;
          ht = y2 - y;
          b = updateFromDatum (converters rb) d (variableBuilder rb);
          sq = squeeze rb d
      in if sq \<noteq> [] \<and> sq \<noteq> ''none'' then
           (case squeeze_coords sq x x2 y y2 of
              None \<Rightarrow> Inl TypeError
            | Some c \<Rightarrow>
                Inr (rb\<lparr>variableBuilder :=
                  run [updateX (s_ax c), updateY (s_ay c), pushAll, pushAll,
                       updateX (s_bx c), updateY (s_by c), pushAll,
                       updateX (s_cx c), updateY (s_cy c), pushAll, pushAll] b\<rparr>))
         else
           (let tileCount = 1;
                b1 = run [updateX x, updateWidth (- wd), updateY y, updateHeight (- ht),
                          pushAll] b;
                b2 = fold (tileStep x y y2 wd ht tileCount) [0 ..< Suc tileCount] b1;
                b3 = run [updateFromDatum (converters rb) d, updateX x2, updateWidth wd,
                          updateHeight ht, updateY y2, pushAll] b2
            in Inr (rb\<lparr>variableBuilder := b3\<rparr>)))"

text \<open>
  The head of the loop body: read \<open>x\<close> and \<open>x2\<close>, swap them when \<open>x > x2\<close>, skip the
  datum (\<open>continue\<close>) when it lies outside the visible range, truncate it to the range
  otherwise.
\<close>

definition rectDatum :: "('d, 'a) rectVertexBuilder \<Rightarrow> 'd \<Rightarrow> error + ('d, 'a) rectVertexBuilder" where
  "rectDatum rb d =
     (let (lower, upper) = visibleRange rb;
          x0 = xAccessor rb d;
          x20 = x2Accessor rb d;
          x = (if x0 > x20 then x20 else x0);
          x2 = (if x0 > x20 then x0 else x20)
      in if x2 < lower \<or> x > upper then Inr rb
         else
           (let x' = (if x < lower then lower else x);
                x2' = (if x2 > upper then upper else x2)
            in emitRect rb d x' x2'))"

fun rectLoop :: "'d list \<Rightarrow> ('d, 'a) rectVertexBuilder \<Rightarrow> error + ('d, 'a) rectVertexBuilder" where
  "rectLoop [] rb = Inr rb"
| "rectLoop (d # ds) rb =
     (case rectDatum rb d of Inl e \<Rightarrow> Inl e | Inr rb' \<Rightarrow> rectLoop ds rb')"

definition rect_addBatch :: "string \<Rightarrow> 'd list \<Rightarrow> ('d, 'a) rectVertexBuilder
    \<Rightarrow> error + ('d, 'a) rectVertexBuilder" where
  "rect_addBatch key data rb =
     (let offs = vertexCount (variableBuilder rb)
      in case rectLoop data rb of
           Inl e \<Rightarrow> Inl e
         | Inr rb' \<Rightarrow>
             (let cnt = vertexCount (variableBuilder rb') - offs
              in Inr (if cnt \<noteq> 0
                      then rb'\<lparr>rangeMap :=
                             AList.update key \<lparr>offset = offs, count = cnt\<rparr> (rangeMap rb')\<rparr>
                      else rb')))"

subsection \<open>RuleVertexBuilder\<close>

text \<open>
  The rule builder adds no state to VertexBuilder that \<open>addBatch\<close> reads: the visible
  range is read into two constants that are never used. A rule has a duplicate of its
  first vertex, two vertices at each end of its one tile, and a duplicate of its last.
\<close>

record 'a ruleVertex =
  side :: real
  pos :: real
  ruleAttrs :: 'a

definition updateSide :: "real \<Rightarrow> 'a ruleVertex arrayBuilder \<Rightarrow> 'a ruleVertex arrayBuilder" where
  "updateSide v b = b\<lparr>current := (current b)\<lparr>side := v\<rparr>\<rparr>"

definition updatePos :: "real \<Rightarrow> 'a ruleVertex arrayBuilder \<Rightarrow> 'a ruleVertex arrayBuilder" where
  "updatePos v b = b\<lparr>current := (current b)\<lparr>pos := v\<rparr>\<rparr>"

definition ruleTileStep :: "nat \<Rightarrow> nat \<Rightarrow> 'a ruleVertex arrayBuilder \<Rightarrow> 'a ruleVertex arrayBuilder" where
  "ruleTileStep tileCount i b =
     run [updatePos (real i / real tileCount), updateSide (- (1 / 2)), pushAll,
          updateSide (1 / 2), pushAll] b"

definition ruleDatum :: "('d, 'a ruleVertex) vertexBuilder \<Rightarrow> 'd \<Rightarrow> ('d, 'a ruleVertex) vertexBuilder" where
  "ruleDatum rb d =
     (let tileCount = 1;
          b1 = run [updateFromDatum (converters rb) d, updateSide (- (1 / 2)), updatePos 0,
                    pushAll] (variableBuilder rb);
          b2 = fold (ruleTileStep tileCount) [0 ..< Suc tileCount] b1;
          b3 = pushAll b2
      in rb\<lparr>variableBuilder := b3\<rparr>)"

definition rule_addBatch :: "string \<Rightarrow> 'd list \<Rightarrow> ('d, 'a ruleVertex) vertexBuilder
    \<Rightarrow> ('d, 'a ruleVertex) vertexBuilder" where
  "rule_addBatch key data rb =
     (let offs = vertexCount (variableBuilder rb);
          rb' = fold (\<lambda>d b. ruleDatum b d) data rb;
          cnt = vertexCount (variableBuilder rb') - offs
      in if cnt \<noteq> 0
         then rb'\<lparr>rangeMap := AList.update key \<lparr>offset = offs, count = cnt\<rparr> (rangeMap rb')\<rparr>
         else rb')"

subsection \<open>TextVertexBuilder\<close>

text \<open>
  A glyph of the bitmap font (an entry of \<open>metadata.chars\<close>) and the font as the text
  builder keeps it: \<open>chars\<close> by character code, \<open>metadata.common.base\<close> and
  \<open>metadata.common.scaleH\<close>. \<open>align\<close> and \<open>baseline\<close> are the two properties, where
  the empty string stands for a missing one. \<open>textOf\<close> is the text encoder followed by
  the number format and the conversion to a string, which is a list of character codes.
\<close>

record glyph =
  g_id :: nat
  g_x :: real
  g_y :: real
  g_width :: real
  g_height :: real
  g_xoffset :: real
  g_yoffset :: real
  g_xadvance :: real

record 'a textVertex =
  cx :: real
  cy :: real
  tx :: real
  ty :: real
  textWidth :: real
  textAttrs :: 'a

record ('d, 'a) textVertexBuilder = "('d, 'a textVertex) vertexBuilder" +
  chars :: "nat \<rightharpoonup> glyph"
  fontBase :: real
  scaleH :: real
  align :: string
  baseline :: string
  textOf :: "'d \<Rightarrow> nat list"

text \<open>
  The constructor: \<open>Object.fromEntries\<close> keeps the last glyph of each character code.
\<close>

definition newTextVertexBuilder :: "('d \<Rightarrow> 'a textVertex \<Rightarrow> 'a textVertex) \<Rightarrow> 'a textVertex
    \<Rightarrow> glyph list \<Rightarrow> real \<Rightarrow> real \<Rightarrow> string \<Rightarrow> string \<Rightarrow> ('d \<Rightarrow> nat list)
    \<Rightarrow> ('d, 'a) textVertexBuilder" where
  "newTextVertexBuilder conv v0 metadataChars base scale al bl text =
     \<lparr>converters = conv,
      variableBuilder = \<lparr>current = v0, pushed = []\<rparr>,
      index = 0,
      rangeMap = [],
      chars = map_of (rev (map (\<lambda>e. (g_id e, e)) metadataChars)),
      fontBase = base,
      scaleH = scale,
      align = al,
      baseline = bl,
      textOf = text\<rparr>"

text \<open>
  \<open>getChar\<close>: the glyph of the character code, or the glyph of code 63; \<open>undefined\<close>
  (\<open>None\<close>) when the font has neither, and reading a property of it throws.
\<close>

definition getChar :: "('d, 'a) textVertexBuilder \<Rightarrow> nat \<Rightarrow> glyph option" where
  "getChar tb charCode = (case chars tb charCode of Some g \<Rightarrow> Some g | None \<Rightarrow> chars tb 63)"

definition updateCX :: "real \<Rightarrow> 'a textVertex arrayBuilder \<Rightarrow> 'a textVertex arrayBuilder" where
  "updateCX v b = b\<lparr>current := (current b)\<lparr>cx := v\<rparr>\<rparr>"

definition updateCY :: "real \<Rightarrow> 'a textVertex arrayBuilder \<Rightarrow> 'a textVertex arrayBuilder" where
  "updateCY v b = b\<lparr>current := (current b)\<lparr>cy := v\<rparr>\<rparr>"

definition updateTX :: "real \<Rightarrow> 'a textVertex arrayBuilder \<Rightarrow> 'a textVertex arrayBuilder" where
  "updateTX v b = b\<lparr>current := (current b)\<lparr>tx := v\<rparr>\<rparr>"

definition updateTY :: "real \<Rightarrow> 'a textVertex arrayBuilder \<Rightarrow> 'a textVertex arrayBuilder" where
  "updateTY v b = b\<lparr>current := (current b)\<lparr>ty := v\<rparr>\<rparr>"

definition updateTextWidth :: "real \<Rightarrow> 'a textVertex arrayBuilder \<Rightarrow> 'a textVertex arrayBuilder" where
  "updateTextWidth v b = b\<lparr>current := (current b)\<lparr>textWidth := v\<rparr>\<rparr>"

text \<open>
  The loop over the characters of one string, on their glyphs: a glyph with id 32 only
  advances \<open>x\<close>, any other glyph is six vertices.
\<close>

fun glyphLoop :: "real \<Rightarrow> real \<Rightarrow> real \<Rightarrow> glyph list \<Rightarrow> real \<Rightarrow> 'a textVertex arrayBuilder
    \<Rightarrow> 'a textVertex arrayBuilder" where
  "glyphLoop base scale bl [] x b = b"
| "glyphLoop base scale bl (c # cs) x b =
     (let advance = g_xadvance c / base
      in if g_id c = 32 then glyphLoop base scale bl cs (x + advance) b
         else
           (let ht = g_height c / base;
                bottom = - (g_height c + g_yoffset c + bl) / base;
                b' = run
                  [updateCX x, updateCY (bottom + ht),
                   updateTX (g_x c / scale), updateTY (g_y c / scale), pushAll,
                   updateCX (x + g_width c / base), updateCY (bottom + ht),
                   updateTX ((g_x c + g_width c) / scale), updateTY (g_y c / scale), pushAll,
                   updateCX x, updateCY bottom,
                   updateTX (g_x c / scale), updateTY ((g_y c + g_height c) / scale), pushAll,
                   updateCX (x + g_width c / base), updateCY (bottom + ht),
                   updateTX ((g_x c + g_width c) / scale), updateTY (g_y c / scale), pushAll,
                   updateCX x, updateCY bottom,
                   updateTX (g_x c / scale), updateTY ((g_y c + g_height c) / scale), pushAll,
                   updateCX (x + g_width c / base), updateCY bottom,
                   updateTX ((g_x c + g_width c) / scale),
                   updateTY ((g_y c + g_height c) / scale), pushAll] b
            in glyphLoop base scale bl cs (x + advance) b'))"

text \<open>
  The loop that sums \<open>xadvance\<close> reads the glyph of every character, and throws at one
  that \<open>getChar\<close> does not find. \<open>resolveGlyphs\<close> is that sequence of reads; the loop
  over the characters then reads the same glyphs again.
\<close>

fun resolveGlyphs :: "('d, 'a) textVertexBuilder \<Rightarrow> nat list \<Rightarrow> glyph list option" where
  "resolveGlyphs tb [] = Some []"
| "resolveGlyphs tb (c # cs) =
     (case getChar tb c of
        None \<Rightarrow> None
      | Some g \<Rightarrow> (case resolveGlyphs tb cs of None \<Rightarrow> None | Some gs \<Rightarrow> Some (g # gs)))"

text \<open>The body of the loop over the data, for the baseline offset \<open>bl\<close>.\<close>

definition textDatum :: "real \<Rightarrow> ('d, 'a) textVertexBuilder \<Rightarrow> 'd
    \<Rightarrow> error + ('d, 'a) textVertexBuilder" where
  "textDatum bl tb d =
     (case textOf tb d of
        [] \<Rightarrow> Inr tb
      | c0 # rest \<Rightarrow>
          (case resolveGlyphs tb (c0 # rest) of
             None \<Rightarrow> Inl TypeError
           | Some glyphs \<Rightarrow>
               (case getChar tb c0 of
                  None \<Rightarrow> Inl TypeError
                | Some firstChar \<Rightarrow>
                    (let base = fontBase tb;
                         b = updateFromDatum (converters tb) d (variableBuilder tb);
                         tw = sum_list (map g_xadvance glyphs) / base;
                         b1 = updateTextWidth tw b;
                         x0 = (if align tb = ''right'' then - tw
                               else if align tb = ''center'' then - tw / 2 else 0);
                         x = x0 - (g_width firstChar - g_xadvance firstChar) / base / 2
                     in Inr (tb\<lparr>variableBuilder :=
                               glyphLoop base (scaleH tb) bl glyphs x b1\<rparr>)))))"

fun textLoop :: "real \<Rightarrow> 'd list \<Rightarrow> ('d, 'a) textVertexBuilder \<Rightarrow> error + ('d, 'a) textVertexBuilder" where
  "textLoop bl [] tb = Inr tb"
| "textLoop bl (d # ds) tb =
     (case textDatum bl tb d of Inl e \<Rightarrow> Inl e | Inr tb' \<Rightarrow> textLoop bl ds tb')"

text \<open>
  \<open>addBatch\<close> reads the glyphs of \<open>x\<close> (code 120) and \<open>X\<close> (code 88) before the loop,
  and throws when the font has neither them nor the glyph of code 63.
\<close>

definition text_addBatch :: "string \<Rightarrow> 'd list \<Rightarrow> ('d, 'a) textVertexBuilder
    \<Rightarrow> error + ('d, 'a) textVertexBuilder" where
  "text_addBatch key data tb =
     (let offs = vertexCount (variableBuilder tb);
          sdfPadding = 5
      in case getChar tb 120 of
           None \<Rightarrow> Inl TypeError
         | Some gx \<Rightarrow>
             (case getChar tb 88 of
                None \<Rightarrow> Inl TypeError
              | Some gX \<Rightarrow>
                  (let xHeight = g_height gx - sdfPadding * 2;
                       capHeight = g_height gX - sdfPadding * 2;
                       bl = (if baseline tb = ''top'' then - sdfPadding + capHeight
                             else if baseline tb = ''middle'' then - sdfPadding + capHeight / 2
                             else - sdfPadding)
                   in case textLoop bl data tb of
                        Inl e \<Rightarrow> Inl e
                      | Inr tb' \<Rightarrow>
                          (let cnt = vertexCount (variableBuilder tb') - offs
                           in Inr (if cnt \<noteq> 0
                                   then tb'\<lparr>rangeMap :=
                                          AList.update key \<lparr>offset = offs, count = cnt\<rparr>
                                            (rangeMap tb')\<rparr>
                                   else tb')))))"

subsection \<open>Sequences of batches and the range map\<close>

text \<open>
  A sequence of \<open>addBatch\<close> calls on one builder, first call first. A call of the rect
  or the text builder that throws ends the sequence.
\<close>

fun addBatches :: "(string \<times> 'd list) list \<Rightarrow> ('d, 'v, 'z) vertexBuilder_scheme \<Rightarrow> ('d, 'v, 'z) vertexBuilder_scheme" where
  "addBatches [] vb = vb"
| "addBatches ((key, points) # bs) vb = addBatches bs (addBatch key points vb)"

fun rect_addBatches :: "(string \<times> 'd list) list \<Rightarrow> ('d, 'a) rectVertexBuilder \<Rightarrow> error + ('d, 'a) rectVertexBuilder" where
  "rect_addBatches [] rb = Inr rb"
| "rect_addBatches ((key, data) # bs) rb =
     (case rect_addBatch key data rb of Inl e \<Rightarrow> Inl e | Inr rb' \<Rightarrow> rect_addBatches bs rb')"

fun rule_addBatches :: "(string \<times> 'd list) list \<Rightarrow> ('d, 'a ruleVertex) vertexBuilder
    \<Rightarrow> ('d, 'a ruleVertex) vertexBuilder" where
  "rule_addBatches [] rb = rb"
| "rule_addBatches ((key, data) # bs) rb = rule_addBatches bs (rule_addBatch key data rb)"

fun text_addBatches :: "(string \<times> 'd list) list \<Rightarrow> ('d, 'a) textVertexBuilder
    \<Rightarrow> error + ('d, 'a) textVertexBuilder" where
  "text_addBatches [] tb = Inr tb"
| "text_addBatches ((key, data) # bs) tb =
     (case text_addBatch key data tb of Inl e \<Rightarrow> Inl e | Inr tb' \<Rightarrow> text_addBatches bs tb')"

text \<open>
  \<open>partitions a rm b\<close>: the ranges of \<open>rm\<close>, in the order of the map, tile the
  vertices \<open>a ..< b\<close>: each range is not empty and starts where the one before it
  ends. \<open>totalCount\<close> is the sum of the counts.
\<close>

fun partitions :: "nat \<Rightarrow> (string \<times> rangeEntry) list \<Rightarrow> nat \<Rightarrow> bool" where
  "partitions a [] b = (a = b)"
| "partitions a ((k, r) # rs) b = (offset r = a \<and> 0 < count r \<and> partitions (a + count r) rs b)"

definition totalCount :: "(string \<times> rangeEntry) list \<Rightarrow> nat" where
  "totalCount rm = sum_list (map (\<lambda>(k, r). count r) rm)"

text \<open>
  What one datum of a rect batch contributes: nothing when it lies outside the visible
  range, five vertices with a squeeze, six without. \<open>knownSqueeze\<close> holds of the squeeze
  values for which \<open>addBatch\<close> does not throw.
\<close>

definition skipped :: "('d, 'a) rectVertexBuilder \<Rightarrow> 'd \<Rightarrow> bool" where
  "skipped rb d =
     (max (xAccessor rb d) (x2Accessor rb d) < fst (visibleRange rb)
      \<or> min (xAccessor rb d) (x2Accessor rb d) > snd (visibleRange rb))"

definition squeezed :: "('d, 'a) rectVertexBuilder \<Rightarrow> 'd \<Rightarrow> bool" where
  "squeezed rb d = (squeeze rb d \<in> {''bottom'', ''top'', ''left'', ''right''})"

definition knownSqueeze :: "('d, 'a) rectVertexBuilder \<Rightarrow> 'd \<Rightarrow> bool" where
  "knownSqueeze rb d = (squeeze rb d \<in> {[], ''none'', ''bottom'', ''top'', ''left'', ''right''})"

definition rectVertices :: "('d, 'a) rectVertexBuilder \<Rightarrow> 'd \<Rightarrow> nat" where
  "rectVertices rb d = (if skipped rb d then 0 else if squeezed rb d then 5 else 6)"

definition batchVertices :: "('d, 'a) rectVertexBuilder \<Rightarrow> 'd list \<Rightarrow> nat" where
  "batchVertices rb ds = sum_list (map (rectVertices rb) ds)"

text \<open>
  What a text batch contributes: six vertices for every character whose glyph is not the
  glyph with id 32.
\<close>

definition glyphCount :: "('d, 'a) textVertexBuilder \<Rightarrow> nat list \<Rightarrow> nat" where
  "glyphCount tb str =
     length (filter (\<lambda>c. case getChar tb c of None \<Rightarrow> False | Some g \<Rightarrow> g_id g \<noteq> 32) str)"

definition textVertices :: "('d, 'a) textVertexBuilder \<Rightarrow> 'd list \<Rightarrow> nat" where
  "textVertices tb ds = sum_list (map (\<lambda>d. 6 * glyphCount tb (textOf tb d)) ds)"

text \<open>
  The bookkeeping that every \<open>addBatch\<close> does, on its own: from the number \<open>n\<close> of
  vertices so far and the range map, a batch of \<open>c\<close> vertices under \<open>k\<close> gives \<open>n + c\<close>
  vertices and, when \<open>c\<close> is not zero, the entry \<open>k \<mapsto> (n, c)\<close>.
\<close>

fun ranges :: "(string \<times> nat) list \<Rightarrow> nat \<times> (string \<times> rangeEntry) list \<Rightarrow> nat \<times> (string \<times> rangeEntry) list" where
  "ranges [] s = s"
| "ranges ((k, c) # kcs) (n, rm) =
     ranges kcs (n + c, if c \<noteq> 0 then AList.update k \<lparr>offset = n, count = c\<rparr> rm else rm)"

text \<open>
  \<open>batchRanges n rm kcs\<close>: the range map \<open>rm\<close> over \<open>n\<close> vertices is that of a sequence
  of batches with the keys and numbers of vertices \<open>kcs\<close>: its ranges tile the \<open>n\<close>
  vertices in insertion order, their counts sum to \<open>n\<close>, its keys are those of the
  batches with a vertex, in the order of the batches, and the count of each is the number
  of vertices of its batch; a batch without a vertex has no entry.
\<close>

definition batchRanges :: "nat \<Rightarrow> (string \<times> rangeEntry) list \<Rightarrow> (string \<times> nat) list \<Rightarrow> bool" where
  "batchRanges n rm kcs =
     (partitions 0 rm n
      \<and> totalCount rm = n
      \<and> map fst rm = map fst (filter (\<lambda>(k, c). c \<noteq> 0) kcs)
      \<and> (\<forall>(k, c) \<in> set kcs.
            if c = 0 then map_of rm k = None
            else \<exists>r. map_of rm k = Some r \<and> count r = c))"

text \<open>Two rect builders with the same encoders, converters, visible range and index.\<close>

definition sameEncoders :: "('d, 'a) rectVertexBuilder \<Rightarrow> ('d, 'a) rectVertexBuilder \<Rightarrow> bool" where
  "sameEncoders rb rb' =
     (converters rb' = converters rb \<and> index rb' = index rb
      \<and> visibleRange rb' = visibleRange rb
      \<and> xAccessor rb' = xAccessor rb \<and> x2Accessor rb' = x2Accessor rb
      \<and> yAccessor rb' = yAccessor rb \<and> y2Accessor rb' = y2Accessor rb
      \<and> squeeze rb' = squeeze rb)"

text \<open>Two text builders with the same font, properties, encoder, converters and index.\<close>

definition sameFont :: "('d, 'a) textVertexBuilder \<Rightarrow> ('d, 'a) textVertexBuilder \<Rightarrow> bool" where
  "sameFont tb tb' =
     (converters tb' = converters tb \<and> index tb' = index tb \<and> chars tb' = chars tb
      \<and> fontBase tb' = fontBase tb \<and> scaleH tb' = scaleH tb \<and> align tb' = align tb
      \<and> baseline tb' = baseline tb \<and> textOf tb' = textOf tb)"

text \<open>
  \<open>preswapped rb d d'\<close>: \<open>d'\<close> is the datum \<open>d\<close> with each coordinate pair put in
  order (\<open>x \<le> x2\<close>, \<open>y \<le> y2\<close>) and nothing else changed: the squeeze encoder and the
  converters of the other channels give the same values on both.
\<close>

definition preswapped :: "('d, 'a) rectVertexBuilder \<Rightarrow> 'd \<Rightarrow> 'd \<Rightarrow> bool" where
  "preswapped rb d d' =
     (xAccessor rb d' = min (xAccessor rb d) (x2Accessor rb d)
      \<and> x2Accessor rb d' = max (xAccessor rb d) (x2Accessor rb d)
      \<and> yAccessor rb d' = min (yAccessor rb d) (y2Accessor rb d)
      \<and> y2Accessor rb d' = max (yAccessor rb d) (y2Accessor rb d)
      \<and> squeeze rb d' = squeeze rb d
      \<and> converters rb d' = converters rb d)"

text \<open>
  A rect builder for the examples: a datum is the tuple \<open>(x, x2, y, y2, squeeze)\<close>, the
  visible range is \<open>[0, 100]\<close> and there is no other channel.
\<close>

type_synonym rectDatumExample = "real \<times> real \<times> real \<times> real \<times> string"

definition exampleRectBuilder :: "(rectDatumExample, unit) rectVertexBuilder" where
  "exampleRectBuilder =
     newRectVertexBuilder (\<lambda>d v. v)
       \<lparr>attr_x = 0, attr_y = 0, width = 0, height = 0, datumAttrs = ()\<rparr>
       (0, 100)
       (\<lambda>(x, x2, y, y2, s). x) (\<lambda>(x, x2, y, y2, s). x2)
       (\<lambda>(x, x2, y, y2, s). y) (\<lambda>(x, x2, y, y2, s). y2)
       (\<lambda>(x, x2, y, y2, s). s)"

text \<open>
  The geometry of a rect vertex: the four attributes that \<open>addBatch\<close> writes through its
  updaters.
\<close>

definition geometry :: "'a rectVertex \<Rightarrow> real \<times> real \<times> real \<times> real" where
  "geometry v = (attr_x v, attr_y v, width v, height v)"

text \<open>
  \<open>coordsSwapped rb d d'\<close>: as \<open>preswapped\<close>, without the condition on the converters. The
  raw converters that the constructor of VertexBuilder installs for \<open>x\<close>, \<open>x2\<close>, \<open>y\<close> and
  \<open>y2\<close> copy the coordinates of the datum as they are, so they differ on \<open>d\<close> and \<open>d'\<close>.
\<close>

definition coordsSwapped :: "('d, 'a) rectVertexBuilder \<Rightarrow> 'd \<Rightarrow> 'd \<Rightarrow> bool" where
  "coordsSwapped rb d d' =
     (xAccessor rb d' = min (xAccessor rb d) (x2Accessor rb d)
      \<and> x2Accessor rb d' = max (xAccessor rb d) (x2Accessor rb d)
      \<and> yAccessor rb d' = min (yAccessor rb d) (y2Accessor rb d)
      \<and> y2Accessor rb d' = max (yAccessor rb d) (y2Accessor rb d)
      \<and> squeeze rb d' = squeeze rb d)"

text \<open>
  The converters write their own attributes only: \<open>width\<close> and \<open>height\<close>, which have an
  updater and no converter, are left as they are by \<open>updateFromDatum\<close>.
\<close>

definition keepsSize :: "('d, 'a) rectVertexBuilder \<Rightarrow> bool" where
  "keepsSize rb =
     (\<forall>d v. width (converters rb d v) = width v \<and> height (converters rb d v) = height v)"

text \<open>
  Two rect builders with the same encoders, the same range map and, vertex by vertex,
  the same geometry; the width and height held for the next vertex agree as well (the
  squeezed triangle pushes them unchanged).
\<close>

definition sameGeometry :: "('d, 'a) rectVertexBuilder \<Rightarrow> ('d, 'a) rectVertexBuilder \<Rightarrow> bool" where
  "sameGeometry rb rb' =
     (sameEncoders rb rb' \<and> rangeMap rb' = rangeMap rb
      \<and> map geometry (pushed (variableBuilder rb')) = map geometry (pushed (variableBuilder rb))
      \<and> width (current (variableBuilder rb')) = width (current (variableBuilder rb))
      \<and> height (current (variableBuilder rb')) = height (current (variableBuilder rb)))"

text \<open>
  The position of a rect vertex, and two rect builders with the same encoders, the same
  range map and, vertex by vertex, the same position.
\<close>

definition position :: "'a rectVertex \<Rightarrow> real \<times> real" where
  "position v = (attr_x v, attr_y v)"

definition samePositions :: "('d, 'a) rectVertexBuilder \<Rightarrow> ('d, 'a) rectVertexBuilder \<Rightarrow> bool" where
  "samePositions rb rb' =
     (sameEncoders rb rb' \<and> rangeMap rb' = rangeMap rb
      \<and> map position (pushed (variableBuilder rb')) = map position (pushed (variableBuilder rb)))"

text \<open>
  The example builder with converters that copy the raw \<open>x\<close> and \<open>x2\<close> of the datum into
  the vertex.
\<close>

definition exampleRawRectBuilder :: "(rectDatumExample, real \<times> real) rectVertexBuilder" where
  "exampleRawRectBuilder =
     newRectVertexBuilder (\<lambda>(x, x2, y, y2, s) v. v\<lparr>datumAttrs := (x, x2)\<rparr>)
       \<lparr>attr_x = 0, attr_y = 0, width = 0, height = 0, datumAttrs = (0, 0)\<rparr>
       (0, 100)
       (\<lambda>(x, x2, y, y2, s). x) (\<lambda>(x, x2, y, y2, s). x2)
       (\<lambda>(x, x2, y, y2, s). y) (\<lambda>(x, x2, y, y2, s). y2)
       (\<lambda>(x, x2, y, y2, s). s)"

text \<open>
  A text builder for the examples: a datum is its string, and the font has the glyphs of
  the space (32), \<open>?\<close> (63) and \<open>A\<close> (65).
\<close>

definition exampleTextBuilder :: "(nat list, unit) textVertexBuilder" where
  "exampleTextBuilder =
     newTextVertexBuilder (\<lambda>d v. v)
       \<lparr>cx = 0, cy = 0, tx = 0, ty = 0, textWidth = 0, textAttrs = ()\<rparr>
       [\<lparr>g_id = 32, g_x = 0, g_y = 0, g_width = 0, g_height = 0, g_xoffset = 0, g_yoffset = 0,
          g_xadvance = 10\<rparr>,
        \<lparr>g_id = 63, g_x = 0, g_y = 0, g_width = 20, g_height = 30, g_xoffset = 0, g_yoffset = 0,
          g_xadvance = 22\<rparr>,
        \<lparr>g_id = 65, g_x = 20, g_y = 0, g_width = 24, g_height = 30, g_xoffset = 0, g_yoffset = 0,
          g_xadvance = 26\<rparr>]
       40 256 [] [] (\<lambda>d. d)"

section \<open>ParamMediator (core/src/view/paramMediator.js)\<close>

subsection \<open>Values, closures and the state\<close>

text \<open>
  A JavaScript value. \<open>!==\<close> on values is inequality here: numbers are reals (no NaN),
  and an object is its reference.
\<close>

datatype jsval = Undefined | Null | JBool bool | JNum real | JStr string | JRef nat

text \<open>
  The mediators form a tree that is fixed at construction: \<open>parentFinder\<close> always returns
  the same mediator. A mediator is identified by its place in the tree, the list of child
  indices from the mediator up to the root: the root is \<open>[]\<close>, the parent of \<open>c # p\<close> is
  \<open>p\<close>, and \<open>0 # p\<close> and \<open>1 # p\<close> are siblings.
\<close>

type_synonym mid = "nat list"

definition parentFinder :: "mid \<Rightarrow> mid option" where
  "parentFinder m = (case m of [] \<Rightarrow> None | c # p \<Rightarrow> Some p)"

text \<open>
  Closures are data. A listener is one of the three kinds of function that reach a
  listener registry, together with an identity (\<open>lid\<close>): two listeners are the same
  function object when they are equal.
  \<^item> \<open>Callback\<close>: a function of a consumer of the mediator. The model records its calls
    and gives it no other effect.
  \<^item> \<open>Reapply m name expr\<close>: the closure \<open>() => realSetter(expr(null))\<close> of
    \<open>registerParam\<close>, for the parameter \<open>name\<close> of mediator \<open>m\<close>.
  \<^item> \<open>BatchProp a key\<close>: the closure \<open>() => batchPropertyChange(key)\<close> of the call
    number \<open>a\<close> of \<open>activateExprRefProps\<close>.
  None of them adds or removes a listener, so a loop over a listener set sees the set as
  it was when the loop began.
\<close>

datatype action = Callback | Reapply mid string string | BatchProp nat string

record listener =
  lid :: nat
  act :: action

text \<open>
  A setter is the closure of \<open>allocateSetter\<close> for one parameter of one mediator, or the
  no-op \<open>(_) => undefined\<close> of \<open>registerParam\<close>.
\<close>

datatype setterFn = RealSetter mid string | NopSetter

text \<open>
  The parameter specification given to \<open>registerParam\<close>: \<open>"value" in param\<close> and
  \<open>"expr" in param\<close> are \<open>param_value \<noteq> None\<close> and \<open>param_expr \<noteq> None\<close>.
\<close>

record variableParameter =
  param_name :: string
  param_value :: "jsval option"
  param_expr :: "string option"

text \<open>
  The state that \<open>createExpression\<close> closes over for one expression: \<open>mediatorsForParams\<close>
  (a \<open>Map\<close>, in insertion order) and \<open>myListeners\<close> (a \<open>Set\<close>, in insertion order). The
  expression function itself is identified by the mediator that created it and its
  source text, the key of the cache \<open>#expressions\<close>.
\<close>

record exprRef =
  mediatorsForParams :: "(string \<times> mid) list"
  myListeners :: "listener list"

type_synonym exprHandle = "mid \<times> string"

record mediator =
  paramValues :: "string \<rightharpoonup> jsval"
  paramListeners :: "string \<rightharpoonup> listener list"
  allocatedSetters :: "string \<rightharpoonup> setterFn"
  expressions :: "string \<rightharpoonup> exprRef"
  paramConfigs :: "string \<rightharpoonup> variableParameter"

datatype task = Flush nat

text \<open>
  The whole state: the mediators; the calls of consumer callbacks so far (\<open>calls\<close>, by
  listener identity); the counter that gives each new closure its identity; and for
  \<open>activateExprRefProps\<close> the array \<open>alteredProps\<close> of each activation, the microtask
  queue, and the calls of the activations' listeners with their arguments
  (\<open>deliveries\<close>).
\<close>

record state =
  mediators :: "mid \<Rightarrow> mediator"
  calls :: "nat list"
  nextId :: nat
  alteredProps :: "nat \<Rightarrow> string list"
  microtasks :: "task list"
  deliveries :: "(nat \<times> string list) list"

definition newMediator :: mediator where
  "newMediator =
     \<lparr>paramValues = Map.empty, paramListeners = Map.empty, allocatedSetters = Map.empty,
      expressions = Map.empty, paramConfigs = Map.empty\<rparr>"

definition newState :: state where
  "newState =
     \<lparr>mediators = (\<lambda>m. newMediator), calls = [], nextId = 0,
      alteredProps = (\<lambda>a. []), microtasks = [], deliveries = []\<rparr>"

definition updMediator :: "mid \<Rightarrow> (mediator \<Rightarrow> mediator) \<Rightarrow> state \<Rightarrow> state" where
  "updMediator m f s = s\<lparr>mediators := (mediators s)(m := f (mediators s m))\<rparr>"

text \<open>A JavaScript \<open>Set\<close> in insertion order: \<open>add\<close> and \<open>delete\<close>.\<close>

definition setAdd :: "'a \<Rightarrow> 'a list \<Rightarrow> 'a list" where
  "setAdd x xs = (if x \<in> set xs then xs else xs @ [x])"

definition setDelete :: "'a \<Rightarrow> 'a list \<Rightarrow> 'a list" where
  "setDelete x xs = filter (\<lambda>y. y \<noteq> x) xs"

text \<open>
  Modelled from the spec: createFunction (utils/expression.js) is not among the sources.
  The spec describes an expression as a compiled function over a set of free variable
  names, its globals. For a source text \<open>createFunction\<close> gives the globals, the code
  and the function, which reads its globals through the environment it is given.
\<close>

record compiled =
  globals :: "string list"
  code :: string
  call :: "(string \<Rightarrow> jsval) \<Rightarrow> jsval"

type_synonym createFunction = "string \<Rightarrow> compiled"

subsection \<open>Reading values\<close>

definition getValue :: "state \<Rightarrow> mid \<Rightarrow> string \<Rightarrow> jsval" where
  "getValue s m paramName =
     (case paramValues (mediators s m) paramName of None \<Rightarrow> Undefined | Some v \<Rightarrow> v)"

text \<open>
  \<open>findMediatorForParam\<close>: this mediator when \<open>#paramValues.has(paramName)\<close>, otherwise
  the answer of the parent, \<open>undefined\<close> (\<open>None\<close>) when there is no parent. The
  recursion ends because the parent is nearer to the root.
\<close>

function findMediatorForParam :: "state \<Rightarrow> mid \<Rightarrow> string \<Rightarrow> mid option" where
  "findMediatorForParam s m paramName =
     (if paramValues (mediators s m) paramName \<noteq> None then Some m
      else
        case parentFinder m of
          None \<Rightarrow> None
        | Some parent \<Rightarrow> findMediatorForParam s parent paramName)"
  by pat_completeness auto
termination
  by (relation "measure (\<lambda>(s, m, paramName). length m)")
     (auto simp: parentFinder_def split: list.splits)

declare findMediatorForParam.simps [simp del]

definition findValue :: "state \<Rightarrow> mid \<Rightarrow> string \<Rightarrow> jsval" where
  "findValue s m paramName =
     (case findMediatorForParam s m paramName of
        None \<Rightarrow> Undefined
      | Some mediator \<Rightarrow> getValue s mediator paramName)"

subsection \<open>Expressions\<close>

text \<open>
  Calling an expression function: its globals are getters that read
  \<open>mediator.getValue(param)\<close> at the mediator bound to \<open>param\<close>.
\<close>

definition globalObject :: "state \<Rightarrow> exprRef \<Rightarrow> string \<Rightarrow> jsval" where
  "globalObject s e param =
     (case map_of (mediatorsForParams e) param of
        None \<Rightarrow> Undefined
      | Some mediator \<Rightarrow> getValue s mediator param)"

definition callExpr :: "createFunction \<Rightarrow> state \<Rightarrow> exprHandle \<Rightarrow> jsval" where
  "callExpr cf s h =
     (case expressions (mediators s (fst h)) (snd h) of
        None \<Rightarrow> Undefined
      | Some e \<Rightarrow> call (cf (snd h)) (globalObject s e))"

text \<open>The loop of \<open>createExpression\<close> over \<open>fn.globals\<close>, which throws at the first
  variable that no mediator of the chain owns.\<close>

fun bindGlobals :: "state \<Rightarrow> mid \<Rightarrow> string \<Rightarrow> string list \<Rightarrow> (string \<times> mid) list
    \<Rightarrow> error + (string \<times> mid) list" where
  "bindGlobals s m expr [] mfp = Inr mfp"
| "bindGlobals s m expr (param # params) mfp =
     (case findMediatorForParam s m param of
        None \<Rightarrow> Inl (UnknownVariable param expr)
      | Some mediator \<Rightarrow> bindGlobals s m expr params (AList.update param mediator mfp))"

definition createExpression :: "createFunction \<Rightarrow> mid \<Rightarrow> string \<Rightarrow> state
    \<Rightarrow> error + state \<times> exprHandle" where
  "createExpression cf m expr s =
     (if expressions (mediators s m) expr \<noteq> None then Inr (s, (m, expr))
      else
        case bindGlobals s m expr (globals (cf expr)) [] of
          Inl e \<Rightarrow> Inl e
        | Inr mfp \<Rightarrow>
            Inr (updMediator m
                   (\<lambda>md. md\<lparr>expressions :=
                      (expressions md)(expr \<mapsto> \<lparr>mediatorsForParams = mfp, myListeners = []\<rparr>)\<rparr>)
                   s,
                 (m, expr)))"

definition evaluateAndGet :: "createFunction \<Rightarrow> mid \<Rightarrow> string \<Rightarrow> state \<Rightarrow> error + state \<times> jsval" where
  "evaluateAndGet cf m expr s =
     (case createExpression cf m expr s of
        Inl e \<Rightarrow> Inl e
      | Inr (s', fn) \<Rightarrow> Inr (s', callExpr cf s' fn))"

text \<open>
  \<open>fn.addListener\<close>: one round of its loop registers the listener for \<open>param\<close> at the
  bound mediator and remembers it in \<open>myListeners\<close>.
\<close>

definition listenersOf :: "state \<Rightarrow> mid \<Rightarrow> string \<Rightarrow> listener list" where
  "listenersOf s m param =
     (case paramListeners (mediators s m) param of None \<Rightarrow> [] | Some ls \<Rightarrow> ls)"

definition addListenerStep :: "exprHandle \<Rightarrow> listener \<Rightarrow> string \<times> mid \<Rightarrow> state \<Rightarrow> state" where
  "addListenerStep h l pm s =
     (let (param, mediator) = pm;
          s1 = updMediator mediator
                 (\<lambda>md. md\<lparr>paramListeners :=
                    (paramListeners md)(param \<mapsto> setAdd l (listenersOf s mediator param))\<rparr>) s
      in updMediator (fst h)
           (\<lambda>md. md\<lparr>expressions :=
              (case expressions md (snd h) of
                 None \<Rightarrow> expressions md
               | Some e \<Rightarrow> (expressions md)(snd h \<mapsto> e\<lparr>myListeners := setAdd l (myListeners e)\<rparr>))\<rparr>)
           s1)"

definition addListener :: "exprHandle \<Rightarrow> listener \<Rightarrow> state \<Rightarrow> state" where
  "addListener h l s =
     (case expressions (mediators s (fst h)) (snd h) of
        None \<Rightarrow> s
      | Some e \<Rightarrow> fold (addListenerStep h l) (mediatorsForParams e) s)"

text \<open>
  \<open>fn.invalidate\<close>: for every bound parameter, delete every listener of \<open>myListeners\<close>
  from the registry of the parameter at its mediator, when there is one
  (\<open>paramListeners.get(param)?.delete(listener)\<close>). \<open>myListeners\<close> is not cleared.
\<close>

definition invalidateStep :: "listener list \<Rightarrow> string \<times> mid \<Rightarrow> state \<Rightarrow> state" where
  "invalidateStep mine pm s =
     (let (param, mediator) = pm
      in updMediator mediator
           (\<lambda>md. md\<lparr>paramListeners :=
              (case paramListeners md param of
                 None \<Rightarrow> paramListeners md
               | Some ls \<Rightarrow> (paramListeners md)(param \<mapsto> fold setDelete mine ls))\<rparr>) s)"

definition invalidate :: "exprHandle \<Rightarrow> state \<Rightarrow> state" where
  "invalidate h s =
     (case expressions (mediators s (fst h)) (snd h) of
        None \<Rightarrow> s
      | Some e \<Rightarrow> fold (invalidateStep (myListeners e)) (mediatorsForParams e) s)"

subsection \<open>Setters and listener calls\<close>

text \<open>
  \<open>batchPropertyChange\<close> of activation \<open>a\<close>: push the property, and queue the flush when
  it is the only pending one.
\<close>

definition batchPropertyChange :: "nat \<Rightarrow> string \<Rightarrow> state \<Rightarrow> state" where
  "batchPropertyChange a prop s =
     (let s1 = s\<lparr>alteredProps := (alteredProps s)(a := alteredProps s a @ [prop])\<rparr>
      in if length (alteredProps s1 a) = 1
         then s1\<lparr>microtasks := microtasks s1 @ [Flush a]\<rparr>
         else s1)"

text \<open>
  The setter that \<open>allocateSetter\<close> creates calls listeners, and a listener of
  \<open>registerParam\<close> calls a setter. The first argument after the compiler bounds the
  depth of these nested calls: a call of a listener needs one unit, and the result is
  \<open>None\<close> when the bound does not suffice.
\<close>

fun setter :: "createFunction \<Rightarrow> nat \<Rightarrow> mid \<Rightarrow> string \<Rightarrow> jsval \<Rightarrow> state \<Rightarrow> state option"
  and callListeners :: "createFunction \<Rightarrow> nat \<Rightarrow> listener list \<Rightarrow> state \<Rightarrow> state option"
  and callListener :: "createFunction \<Rightarrow> nat \<Rightarrow> listener \<Rightarrow> state \<Rightarrow> state option" where
  "setter cf k m paramName v s =
     (let previous = getValue s m paramName
      in if v \<noteq> previous then
           (let s1 = updMediator m
                       (\<lambda>md. md\<lparr>paramValues := (paramValues md)(paramName \<mapsto> v)\<rparr>) s
            in case paramListeners (mediators s1 m) paramName of
                 None \<Rightarrow> Some s1
               | Some listeners \<Rightarrow> callListeners cf k listeners s1)
         else Some s)"
| "callListeners cf k [] s = Some s"
| "callListeners cf k (l # ls) s =
     (case callListener cf k l s of None \<Rightarrow> None | Some s1 \<Rightarrow> callListeners cf k ls s1)"
| "callListener cf 0 l s = None"
| "callListener cf (Suc k) l s =
     (case act l of
        Callback \<Rightarrow> Some (s\<lparr>calls := calls s @ [lid l]\<rparr>)
      | Reapply m paramName expr \<Rightarrow> setter cf k m paramName (callExpr cf s (m, expr)) s
      | BatchProp a key \<Rightarrow> Some (batchPropertyChange a key s))"

definition applySetter :: "createFunction \<Rightarrow> nat \<Rightarrow> setterFn \<Rightarrow> jsval \<Rightarrow> state \<Rightarrow> state option" where
  "applySetter cf k f v s =
     (case f of RealSetter m paramName \<Rightarrow> setter cf k m paramName v s | NopSetter \<Rightarrow> Some s)"

definition allocateSetter :: "createFunction \<Rightarrow> nat \<Rightarrow> mid \<Rightarrow> string \<Rightarrow> jsval \<Rightarrow> state
    \<Rightarrow> (error + state \<times> setterFn) option" where
  "allocateSetter cf k m paramName initialValue s =
     (if allocatedSetters (mediators s m) paramName \<noteq> None
      then Some (Inl (SetterAlreadyAllocated paramName))
      else
        case setter cf k m paramName initialValue s of
          None \<Rightarrow> None
        | Some s1 \<Rightarrow>
            Some (Inr (updMediator m
                         (\<lambda>md. md\<lparr>allocatedSetters :=
                            (allocatedSetters md)(paramName \<mapsto> RealSetter m paramName)\<rparr>) s1,
                       RealSetter m paramName)))"

definition getSetter :: "state \<Rightarrow> mid \<Rightarrow> string \<Rightarrow> error + setterFn" where
  "getSetter s m paramName =
     (case allocatedSetters (mediators s m) paramName of
        None \<Rightarrow> Inl (SetterNotFound paramName)
      | Some f \<Rightarrow> Inr f)"

text \<open>
  \<open>registerParam\<close>. The result is the setter, or \<open>undefined\<close> (\<open>None\<close>) for a
  specification with neither a value nor an expression. The closure it registers gets
  the next identity of the counter.
\<close>

definition registerParam :: "createFunction \<Rightarrow> nat \<Rightarrow> mid \<Rightarrow> variableParameter \<Rightarrow> state
    \<Rightarrow> (error + state \<times> setterFn option) option" where
  "registerParam cf k m param s =
     (let setConfig = updMediator m
            (\<lambda>md. md\<lparr>paramConfigs := (paramConfigs md)(param_name param \<mapsto> param)\<rparr>)
      in
      if param_value param \<noteq> None \<and> param_expr param \<noteq> None
      then Some (Inl (BothValueAndExpr (param_name param)))
      else
        case param_value param of
          Some v \<Rightarrow>
            (case allocateSetter cf k m (param_name param) v s of
               None \<Rightarrow> None
             | Some (Inl e) \<Rightarrow> Some (Inl e)
             | Some (Inr (s1, f)) \<Rightarrow> Some (Inr (setConfig s1, Some f)))
        | None \<Rightarrow>
            (case param_expr param of
               Some src \<Rightarrow>
                 (case createExpression cf m src s of
                    Inl e \<Rightarrow> Some (Inl e)
                  | Inr (s1, expr) \<Rightarrow>
                      (case allocateSetter cf k m (param_name param) (callExpr cf s1 expr) s1 of
                         None \<Rightarrow> None
                       | Some (Inl e) \<Rightarrow> Some (Inl e)
                       | Some (Inr (s2, realSetter)) \<Rightarrow>
                           (let l = \<lparr>lid = nextId s2, act = Reapply m (param_name param) src\<rparr>;
                                s3 = addListener expr l (s2\<lparr>nextId := nextId s2 + 1\<rparr>)
                            in Some (Inr (setConfig s3, Some NopSetter)))))
             | None \<Rightarrow> Some (Inr (setConfig s, None))))"

subsection \<open>activateExprRefProps\<close>

text \<open>
  A property value is an ExprRef (\<open>{expr: "..."}\<close>) or any other value. The activation
  gets the next identity of the counter; \<open>hasListener\<close> says whether a listener was
  given. The getters of the activated properties only read, and are left out.
\<close>

datatype propValue = ExprRef string | Plain jsval

fun activateProps :: "createFunction \<Rightarrow> mid \<Rightarrow> nat \<Rightarrow> bool \<Rightarrow> (string \<times> propValue) list \<Rightarrow> state
    \<Rightarrow> error + state" where
  "activateProps cf m a hasListener [] s = Inr s"
| "activateProps cf m a hasListener ((key, Plain v) # props) s =
     activateProps cf m a hasListener props s"
| "activateProps cf m a hasListener ((key, ExprRef src) # props) s =
     (case createExpression cf m src s of
        Inl e \<Rightarrow> Inl e
      | Inr (s1, fn) \<Rightarrow>
          (if hasListener then
             (let l = \<lparr>lid = nextId s1, act = BatchProp a key\<rparr>;
                  s2 = addListener fn l (s1\<lparr>nextId := nextId s1 + 1\<rparr>)
              in activateProps cf m a hasListener props s2)
           else activateProps cf m a hasListener props s1))"

definition activateExprRefProps :: "createFunction \<Rightarrow> mid \<Rightarrow> (string \<times> propValue) list \<Rightarrow> bool \<Rightarrow> state
    \<Rightarrow> error + state \<times> nat" where
  "activateExprRefProps cf m props hasListener s =
     (let a = nextId s;
          s0 = s\<lparr>nextId := nextId s + 1, alteredProps := (alteredProps s)(a := [])\<rparr>
      in case activateProps cf m a hasListener props s0 of
           Inl e \<Rightarrow> Inl e
         | Inr s1 \<Rightarrow> Inr (s1, a))"

text \<open>
  The microtask that \<open>batchPropertyChange\<close> queues: call the listener with a copy of
  \<open>alteredProps\<close>, then empty the array. The listener is a function of the consumer; its
  call is recorded. The queue is run to its end when the synchronous code of a tick has
  finished.
\<close>

definition runTask :: "task \<Rightarrow> state \<Rightarrow> state" where
  "runTask t s =
     (case t of
        Flush a \<Rightarrow>
          s\<lparr>deliveries := deliveries s @ [(a, alteredProps s a)],
            alteredProps := (alteredProps s)(a := [])\<rparr>)"

definition runMicrotasks :: "state \<Rightarrow> state" where
  "runMicrotasks s = (fold runTask (microtasks s) s)\<lparr>microtasks := []\<rparr>"

subsection \<open>Programs of a consumer\<close>

text \<open>
  A sequence of calls that a consumer of the mediators makes, run in order from a state;
  \<open>EndOfTick\<close> is the end of the synchronous code, where the queued microtasks run. The
  result is \<open>None\<close> when the bound on nested calls does not suffice, and the error when a
  call throws. \<open>observe f\<close> reads \<open>f\<close> off the final state.
\<close>

datatype call =
    AllocateSetter mid string jsval
  | RegisterParam mid variableParameter
  | ApplySetter setterFn jsval
  | CreateExpression mid string
  | AddListener exprHandle listener
  | Invalidate exprHandle
  | ActivateExprRefProps mid "(string \<times> propValue) list" bool
  | EndOfTick

fun runCall :: "createFunction \<Rightarrow> nat \<Rightarrow> call \<Rightarrow> state \<Rightarrow> (error + state) option" where
  "runCall cf k (AllocateSetter m paramName v) s =
     map_option (map_sum id fst) (allocateSetter cf k m paramName v s)"
| "runCall cf k (RegisterParam m param) s =
     map_option (map_sum id fst) (registerParam cf k m param s)"
| "runCall cf k (ApplySetter f v) s = map_option Inr (applySetter cf k f v s)"
| "runCall cf k (CreateExpression m expr) s = Some (map_sum id fst (createExpression cf m expr s))"
| "runCall cf k (AddListener h l) s = Some (Inr (addListener h l s))"
| "runCall cf k (Invalidate h) s = Some (Inr (invalidate h s))"
| "runCall cf k (ActivateExprRefProps m props hasListener) s =
     Some (map_sum id fst (activateExprRefProps cf m props hasListener s))"
| "runCall cf k EndOfTick s = Some (Inr (runMicrotasks s))"

fun runCalls :: "createFunction \<Rightarrow> nat \<Rightarrow> call list \<Rightarrow> state \<Rightarrow> (error + state) option" where
  "runCalls cf k [] s = Some (Inr s)"
| "runCalls cf k (c # cs) s =
     (case runCall cf k c s of
        None \<Rightarrow> None
      | Some (Inl e) \<Rightarrow> Some (Inl e)
      | Some (Inr s1) \<Rightarrow> runCalls cf k cs s1)"

definition observe :: "(state \<Rightarrow> 'a) \<Rightarrow> (error + state) option \<Rightarrow> 'a option" where
  "observe f r = (case r of Some (Inr s) \<Rightarrow> Some (f s) | _ \<Rightarrow> None)"

subsection \<open>Ticks and the pending lists of the activations\<close>

text \<open>
  The closure \<open>() => batchPropertyChange(key)\<close> of an activation is created by
  \<open>activateExprRefProps\<close> only: a listener that a consumer hands to \<open>addListener\<close> is a
  function of its own.
\<close>

definition consumerListener :: "listener \<Rightarrow> bool" where
  "consumerListener l = (case act l of BatchProp a key \<Rightarrow> False | _ \<Rightarrow> True)"

text \<open>The calls that a consumer can make.\<close>

definition consumerCall :: "call \<Rightarrow> bool" where
  "consumerCall c = (case c of AddListener h l \<Rightarrow> consumerListener l | _ \<Rightarrow> True)"

text \<open>
  The call of a listener that a queued flush makes when it runs in the state \<open>s\<close>: the
  listener of the activation, with the pending list.
\<close>

definition flushOf :: "state \<Rightarrow> task \<Rightarrow> nat \<times> string list" where
  "flushOf s t = (case t of Flush a \<Rightarrow> (a, alteredProps s a))"

text \<open>
  The closure of an activation refers to an activation that has been created: its
  identity is below the counter \<open>n\<close>.
\<close>

definition knownActivation :: "nat \<Rightarrow> listener \<Rightarrow> bool" where
  "knownActivation n l = (case act l of BatchProp a key \<Rightarrow> a < n | _ \<Rightarrow> True)"

text \<open>
  What holds of the pending lists and the queue in every state that calls of a consumer
  reach: an activation has one flush in the queue when its pending list is not empty
  and none when it is empty; an activation that does not exist yet has nothing pending;
  and the closures in the registries refer to activations that exist.
\<close>

definition batching :: "state \<Rightarrow> bool" where
  "batching s =
     ((\<forall>a. count_list (microtasks s) (Flush a) = (if alteredProps s a = [] then 0 else 1))
      \<and> (\<forall>a. nextId s \<le> a \<longrightarrow> alteredProps s a = [])
      \<and> (\<forall>m p. \<forall>l \<in> set (listenersOf s m p). knownActivation (nextId s) l))"

text \<open>
  From \<open>s\<close> to \<open>s'\<close> no listener of an activation has been called and every pending list
  has only grown at its end.
\<close>

definition sameTick :: "state \<Rightarrow> state \<Rightarrow> bool" where
  "sameTick s s' =
     (deliveries s' = deliveries s \<and> nextId s \<le> nextId s'
      \<and> (\<forall>a. \<exists>ps. alteredProps s' a = alteredProps s a @ ps))"

text \<open>
  What a call of a setter does to the state of the activations: as \<open>sameTick\<close>, with the
  counter and the registries unchanged.
\<close>

definition quiet :: "state \<Rightarrow> state \<Rightarrow> bool" where
  "quiet s s' =
     (batching s' \<and> sameTick s s' \<and> nextId s' = nextId s \<and> listenersOf s' = listenersOf s)"

definition tickStep :: "state \<Rightarrow> state \<Rightarrow> bool" where
  "tickStep s s' = (batching s' \<and> sameTick s s')"

text \<open>Every pending list of \<open>s'\<close> is that of \<open>s\<close> with entries added at its end.\<close>

definition appended :: "state \<Rightarrow> state \<Rightarrow> bool" where
  "appended s s' = (\<forall>a. \<exists>ps. alteredProps s' a = alteredProps s a @ ps)"

text \<open>
  The bindings of the expression of a handle, and what it is for the activation \<open>a\<close> to
  listen to the expression for its property \<open>key\<close>: at the mediator bound to each variable
  of the expression, the registry of the variable holds a closure
  \<open>() => batchPropertyChange(key)\<close> of \<open>a\<close>.
\<close>

definition bindingsOf :: "state \<Rightarrow> exprHandle \<Rightarrow> (string \<times> mid) list option" where
  "bindingsOf s h = map_option mediatorsForParams (expressions (mediators s (fst h)) (snd h))"

definition listensTo :: "state \<Rightarrow> exprHandle \<Rightarrow> nat \<Rightarrow> string \<Rightarrow> bool" where
  "listensTo s h a key =
     (\<exists>bs. bindingsOf s h = Some bs
        \<and> (\<forall>(g, w) \<in> set bs. \<exists>l \<in> set (listenersOf s w g). act l = BatchProp a key))"

text \<open>From \<open>s\<close> to \<open>s'\<close> no binding has changed and no registry has lost a listener.\<close>

definition grows :: "state \<Rightarrow> state \<Rightarrow> bool" where
  "grows s s' =
     ((\<forall>h bs. bindingsOf s h = Some bs \<longrightarrow> bindingsOf s' h = Some bs)
      \<and> (\<forall>w g. set (listenersOf s w g) \<subseteq> set (listenersOf s' w g)))"

subsection \<open>The parent chain, and an expression language for the examples\<close>

text \<open>
  The parent chain of a mediator, the mediator itself first, and what it is for a mediator
  to own a name.
\<close>

fun chain :: "mid \<Rightarrow> mid list" where
  "chain [] = [[]]"
| "chain (c # p) = (c # p) # chain p"

definition owns :: "state \<Rightarrow> mid \<Rightarrow> string \<Rightarrow> bool" where
  "owns s m paramName = (paramValues (mediators s m) paramName \<noteq> None)"

text \<open>
  An expression language for the examples: a source text is a sum of one-letter
  variables, such as \<open>a+b\<close>; its globals are its letters, and its value is the sum of
  their values, where a value that is not a number counts as 0.
\<close>

definition exampleCreateFunction :: createFunction where
  "exampleCreateFunction src =
     \<lparr>globals = remdups (map (\<lambda>c. [c]) (filter (\<lambda>c. c \<noteq> CHR ''+'') src)),
      code = src,
      call = (\<lambda>env. JNum (sum_list (map (\<lambda>c. case env [c] of JNum x \<Rightarrow> x | _ \<Rightarrow> 0)
                                  (filter (\<lambda>c. c \<noteq> CHR ''+'') src))))\<rparr>"

text \<open>
  Two states for the examples. In \<open>exampleListening\<close> the root owns \<open>a = 1\<close> and two
  callbacks of consumers listen to it. In \<open>exampleExpression\<close> the root owns \<open>a = 1\<close>
  and its child \<open>[0]\<close> has compiled the expression \<open>a\<close>, bound to the root.
\<close>

definition exampleListening :: state where
  "exampleListening =
     updMediator []
       (\<lambda>md. md\<lparr>paramValues := [''a'' \<mapsto> JNum 1],
               paramListeners := [''a'' \<mapsto> [\<lparr>lid = 7, act = Callback\<rparr>, \<lparr>lid = 8, act = Callback\<rparr>]]\<rparr>)
       newState"

definition exampleExpression :: state where
  "exampleExpression =
     updMediator [0]
       (\<lambda>md. md\<lparr>expressions :=
          [''a'' \<mapsto> \<lparr>mediatorsForParams = [(''a'', [])], myListeners = []\<rparr>]\<rparr>)
       (updMediator [] (\<lambda>md. md\<lparr>paramValues := [''a'' \<mapsto> JNum 1]\<rparr>) newState)"

section \<open>Properties of the sample-facet placement\<close>

text \<open>
  Claim C9. For every facet tuple (leftPos, leftHeight, rightPos, rightHeight):
  \<open>isFacetedSamples\<close> is false exactly when the tuple is (0, 1, 0, 1); \<open>isInTransit\<close> is
  false exactly when the left pair equals the right pair; \<open>applySampleFacet\<close> returns the
  position unchanged (so it is the identity on the vertical coordinate) when the tuple is
  not faceted; and when it is faceted and not in transit the vertical coordinate \<open>y\<close>
  becomes \<open>leftPos + y * leftHeight\<close> while the horizontal coordinate is kept.
\<close>

theorem sample_facet_placement:
  "(\<not> isFacetedSamples (lp, lh, rp, rh) \<longleftrightarrow> (lp, lh, rp, rh) = (0, 1, 0, 1))
   \<and> (\<not> isInTransit (lp, lh, rp, rh) \<longleftrightarrow> (lp, lh) = (rp, rh))
   \<and> (\<not> isFacetedSamples (lp, lh, rp, rh) \<longrightarrow>
        applySampleFacet (lp, lh, rp, rh) off (x, y) = (x, y))
   \<and> (isFacetedSamples (lp, lh, rp, rh) \<and> \<not> isInTransit (lp, lh, rp, rh) \<longrightarrow>
        applySampleFacet (lp, lh, rp, rh) off (x, y) = (x, lp + y * lh))"
  by (auto simp add: isFacetedSamples_def isInTransit_def applySampleFacet_def)

theorem sample_facet_placement_witness:
  "\<not> isFacetedSamples (0, 1, 0, 1)
   \<and> applySampleFacet (0, 1, 0, 1) 0 (3, 1 / 4) = (3, 1 / 4)
   \<and> isFacetedSamples (0, 1 / 2, 0, 1 / 2)
   \<and> \<not> isInTransit (0, 1 / 2, 0, 1 / 2)
   \<and> applySampleFacet (0, 1 / 2, 0, 1 / 2) 0 (3, 1) = (3, 1 / 2)"
  using sample_facet_placement [of 0 1 0 1 0 3 "1 / 4"]
        sample_facet_placement [of 0 "1 / 2" 0 "1 / 2" 0 3 1]
  by simp


section \<open>Properties of the vertex builders\<close>

subsection \<open>Auxiliary facts\<close>

lemma update_fresh: "k \<notin> fst ` set al \<Longrightarrow> AList.update k v al = al @ [(k, v)]"
  by (induction al) auto

lemma partitions_end: "partitions a rs b \<Longrightarrow> b = a + totalCount rs"
  by (induction a rs b rule: partitions.induct) (auto simp: totalCount_def)

lemma partitions_snoc:
  "partitions a (rs @ [(k, r)]) b \<longleftrightarrow> (0 < count r \<and> partitions a rs (offset r) \<and> b = offset r + count r)"
  by (induction a rs b rule: partitions.induct) auto

lemma ranges_fst: "fst (ranges kcs (n, rm)) = n + sum_list (map snd kcs)"
  by (induction kcs arbitrary: n rm) auto

lemma ranges_untouched:
  "k \<notin> fst ` set kcs \<Longrightarrow> map_of (snd (ranges kcs (n, rm))) k = map_of rm k"
  by (induction kcs arbitrary: n rm) (auto simp: update_conv')

lemma ranges_counts:
  "distinct (map fst kcs) \<Longrightarrow> (k, c) \<in> set kcs \<Longrightarrow> c \<noteq> 0 \<Longrightarrow>
   \<exists>r. map_of (snd (ranges kcs (n, rm))) k = Some r \<and> count r = c"
proof (induction kcs arbitrary: n rm)
  case Nil
  then show ?case by simp
next
  case (Cons b kcs)
  obtain k' c' where b: "b = (k', c')" by (cases b)
  show ?case
  proof (cases "(k, c) = (k', c')")
    case True
    with Cons.prems b have "k \<notin> fst ` set kcs" by auto
    then show ?thesis using True b Cons.prems(3) by (simp add: ranges_untouched update_conv')
  next
    case False
    with Cons.prems b have "(k, c) \<in> set kcs" "distinct (map fst kcs)" by auto
    from Cons.IH [OF this(2) this(1) Cons.prems(3)] show ?thesis using b by simp
  qed
qed

lemma ranges_empty:
  "distinct (map fst kcs) \<Longrightarrow> (k, 0) \<in> set kcs \<Longrightarrow>
   map_of (snd (ranges kcs (n, rm))) k = map_of rm k"
proof (induction kcs arbitrary: n rm)
  case Nil
  then show ?case by simp
next
  case (Cons b kcs)
  obtain k' c' where b: "b = (k', c')" by (cases b)
  show ?case
  proof (cases "k = k'")
    case True
    with Cons.prems b have "k \<notin> fst ` set kcs" and "c' = 0"
      by (auto simp: image_iff)
    then show ?thesis using True b by (simp add: ranges_untouched)
  next
    case False
    with Cons.prems b have "(k, 0) \<in> set kcs" "distinct (map fst kcs)" by auto
    from Cons.IH [OF this(2) this(1)] show ?thesis using b False
      by (simp add: update_conv')
  qed
qed

lemma ranges_step_keys:
  "k \<notin> fst ` set rm \<Longrightarrow>
   map fst (if c \<noteq> 0 then AList.update k \<lparr>offset = n, count = c\<rparr> rm else rm) =
     map fst rm @ (if c \<noteq> 0 then [k] else [])"
  by (simp add: update_fresh)

lemma ranges_keys:
  "distinct (map fst kcs) \<Longrightarrow> fst ` set kcs \<inter> fst ` set rm = {} \<Longrightarrow>
   map fst (snd (ranges kcs (n, rm))) = map fst rm @ map fst (filter (\<lambda>(k, c). c \<noteq> 0) kcs)"
proof (induction kcs arbitrary: n rm)
  case Nil
  then show ?case by simp
next
  case (Cons b kcs)
  obtain k c where b: "b = (k, c)" by (cases b)
  let ?rm = "if c \<noteq> 0 then AList.update k \<lparr>offset = n, count = c\<rparr> rm else rm"
  have fresh: "k \<notin> fst ` set rm" using Cons.prems(2) b by auto
  have keys: "map fst ?rm = map fst rm @ (if c \<noteq> 0 then [k] else [])"
    by (rule ranges_step_keys [OF fresh])
  have d: "distinct (map fst kcs)" and nk: "k \<notin> fst ` set kcs" using Cons.prems(1) b by auto
  have "set (map fst ?rm) \<subseteq> insert k (fst ` set rm)" unfolding keys by auto
  then have sub: "fst ` set ?rm \<subseteq> insert k (fst ` set rm)" by simp
  have "fst ` set kcs \<inter> fst ` set rm = {}" using Cons.prems(2) by auto
  with sub nk have disj: "fst ` set kcs \<inter> fst ` set ?rm = {}" by blast
  from Cons.IH [OF d disj, of "n + c"] show ?case using b keys by simp
qed

lemma ranges_partitions:
  "partitions 0 rm n \<Longrightarrow> distinct (map fst kcs) \<Longrightarrow> fst ` set kcs \<inter> fst ` set rm = {} \<Longrightarrow>
   partitions 0 (snd (ranges kcs (n, rm))) (fst (ranges kcs (n, rm)))"
proof (induction kcs arbitrary: n rm)
  case Nil
  then show ?case by simp
next
  case (Cons b kcs)
  obtain k c where b: "b = (k, c)" by (cases b)
  let ?rm = "if c \<noteq> 0 then AList.update k \<lparr>offset = n, count = c\<rparr> rm else rm"
  have fresh: "k \<notin> fst ` set rm" using Cons.prems(3) b by auto
  have p: "partitions 0 ?rm (n + c)"
    using Cons.prems(1) fresh by (auto simp: update_fresh partitions_snoc)
  have keys: "map fst ?rm = map fst rm @ (if c \<noteq> 0 then [k] else [])"
    by (rule ranges_step_keys [OF fresh])
  have d: "distinct (map fst kcs)" and nk: "k \<notin> fst ` set kcs" using Cons.prems(2) b by auto
  have "set (map fst ?rm) \<subseteq> insert k (fst ` set rm)" unfolding keys by auto
  then have sub: "fst ` set ?rm \<subseteq> insert k (fst ` set rm)" by simp
  have "fst ` set kcs \<inter> fst ` set rm = {}" using Cons.prems(3) by auto
  with sub nk have disj: "fst ` set kcs \<inter> fst ` set ?rm = {}" by blast
  from Cons.IH [OF p d disj] show ?case using b by simp
qed

lemma ranges_summary:
  assumes "distinct (map fst kcs)"
  shows "batchRanges (fst (ranges kcs (0, []))) (snd (ranges kcs (0, []))) kcs"
proof -
  have p: "partitions 0 (snd (ranges kcs (0, []))) (fst (ranges kcs (0, [])))"
    using ranges_partitions [of "[]" 0 kcs] assms by simp
  have t: "totalCount (snd (ranges kcs (0, []))) = fst (ranges kcs (0, []))"
    using partitions_end [OF p] by simp
  have k: "map fst (snd (ranges kcs (0, []))) = map fst (filter (\<lambda>(k, c). c \<noteq> 0) kcs)"
    using ranges_keys [of kcs "[]" 0] assms by simp
  have c: "\<forall>(k, c) \<in> set kcs.
            if c = 0 then map_of (snd (ranges kcs (0, []))) k = None
            else \<exists>r. map_of (snd (ranges kcs (0, []))) k = Some r \<and> count r = c"
  proof (clarify)
    fix k c assume kc: "(k, c) \<in> set kcs"
    show "if c = 0 then map_of (snd (ranges kcs (0, []))) k = None
          else \<exists>r. map_of (snd (ranges kcs (0, []))) k = Some r \<and> count r = c"
    proof (cases "c = 0")
      case True
      with kc ranges_empty [OF assms, of k 0 "[]"] show ?thesis by simp
    next
      case False
      with ranges_counts [OF assms kc, of 0 "[]"] show ?thesis by simp
    qed
  qed
  from p t k c show ?thesis unfolding batchRanges_def by blast
qed

lemma ranges_summary_map:
  assumes "distinct (map fst bs)"
    and "(n, rm) = ranges (map (\<lambda>(k, ds). (k, f ds)) bs) (0, [])"
  shows "batchRanges n rm (map (\<lambda>(k, ds). (k, f ds)) bs)"
proof -
  let ?kcs = "map (\<lambda>(k, ds). (k, f ds)) bs"
  have fst_eq: "map fst ?kcs = map fst bs" by (induction bs) auto
  have d: "distinct (map fst ?kcs)" unfolding fst_eq by (rule assms(1))
  have n: "n = fst (ranges ?kcs (0, []))" and rm: "rm = snd (ranges ?kcs (0, []))"
    using assms(2) by (metis fst_conv, metis snd_conv)
  show ?thesis unfolding n rm by (rule ranges_summary [OF d])
qed

lemma addPoints_index: "index (addPoints ps vb) = index vb + length ps"
  by (induction ps arbitrary: vb) auto

lemma addPoints_rangeMap: "rangeMap (addPoints ps vb) = rangeMap vb"
  by (induction ps arbitrary: vb) auto

lemma addPoints_pushed:
  "length (pushed (variableBuilder (addPoints ps vb))) = length (pushed (variableBuilder vb)) + length ps"
  by (induction ps arbitrary: vb) (auto simp: pushFromDatum_def pushAll_def updateFromDatum_def)

lemma addBatch_index: "index (addBatch key ps vb) = index vb + length ps"
  by (simp add: addBatch_def Let_def addPoints_index)

lemma addBatch_rangeMap:
  "rangeMap (addBatch key ps vb) =
     (if length ps \<noteq> 0 then AList.update key \<lparr>offset = index vb, count = length ps\<rparr> (rangeMap vb)
      else rangeMap vb)"
  by (simp add: addBatch_def Let_def addPoints_index addPoints_rangeMap)

lemma addBatch_pushed:
  "length (pushed (variableBuilder (addBatch key ps vb))) = length (pushed (variableBuilder vb)) + length ps"
  by (simp add: addBatch_def Let_def addPoints_pushed)

lemma addBatches_ranges:
  "(index (addBatches bs vb), rangeMap (addBatches bs vb)) =
     ranges (map (\<lambda>(k, ds). (k, length ds)) bs) (index vb, rangeMap vb)"
proof (induction bs arbitrary: vb)
  case Nil
  then show ?case by simp
next
  case (Cons b bs)
  obtain k ds where b: "b = (k, ds)" by (cases b)
  show ?case using Cons.IH [of "addBatch k ds vb"] b
    by (simp add: addBatch_index addBatch_rangeMap)
qed

lemma addBatches_pushed:
  "length (pushed (variableBuilder vb)) = index vb \<Longrightarrow>
   length (pushed (variableBuilder (addBatches bs vb))) = index (addBatches bs vb)"
  by (induction bs arbitrary: vb) (auto simp: addBatch_pushed addBatch_index)

lemma vertexCount_pushAll: "vertexCount (pushAll b) = Suc (vertexCount b)"
  by (simp add: vertexCount_def pushAll_def)

lemma vertexCount_updates:
  "vertexCount (updateX v b) = vertexCount b"
  "vertexCount (updateY v b) = vertexCount b"
  "vertexCount (updateWidth v b) = vertexCount b"
  "vertexCount (updateHeight v b) = vertexCount b"
  "vertexCount (updateFromDatum conv d b) = vertexCount b"
  by (simp_all add: vertexCount_def updateX_def updateY_def updateWidth_def updateHeight_def
      updateFromDatum_def)

lemma vertexCount_tileStep:
  "vertexCount (tileStep x y y2 wd ht tc i b) = vertexCount b + 2"
  by (simp add: tileStep_def run_def Let_def vertexCount_pushAll vertexCount_updates)

lemma sameEncoders_refl: "sameEncoders rb rb"
  by (simp add: sameEncoders_def)

lemma sameEncoders_trans: "sameEncoders a b \<Longrightarrow> sameEncoders b c \<Longrightarrow> sameEncoders a c"
  by (simp add: sameEncoders_def)

lemma sameEncoders_funs:
  assumes "sameEncoders rb rb'"
  shows "knownSqueeze rb' = knownSqueeze rb"
    and "rectVertices rb' = rectVertices rb"
    and "batchVertices rb' = batchVertices rb"
proof -
  show "knownSqueeze rb' = knownSqueeze rb"
    using assms by (simp add: sameEncoders_def knownSqueeze_def fun_eq_iff)
  show rv: "rectVertices rb' = rectVertices rb"
    using assms by (simp add: sameEncoders_def rectVertices_def skipped_def squeezed_def fun_eq_iff)
  show "batchVertices rb' = batchVertices rb"
    by (simp add: batchVertices_def fun_eq_iff rv)
qed

lemma emitRect_count:
  assumes "knownSqueeze rb d"
  shows "\<exists>rb'. emitRect rb d x x2 = Inr rb' \<and> sameEncoders rb rb'
           \<and> rangeMap rb' = rangeMap rb
           \<and> vertexCount (variableBuilder rb') =
               vertexCount (variableBuilder rb) + (if squeezed rb d then 5 else 6)"
proof (cases "squeeze rb d \<noteq> [] \<and> squeeze rb d \<noteq> ''none''")
  case True
  with assms have sq: "squeezed rb d" by (auto simp: knownSqueeze_def squeezed_def)
  then obtain c where c: "squeeze_coords (squeeze rb d)
      x x2 (if yAccessor rb d > y2Accessor rb d then y2Accessor rb d else yAccessor rb d)
      (if yAccessor rb d > y2Accessor rb d then yAccessor rb d else y2Accessor rb d) = Some c"
    by (auto simp: squeezed_def squeeze_coords_def)
  show ?thesis using True sq c
    by (simp add: emitRect_def Let_def run_def vertexCount_pushAll vertexCount_updates
        sameEncoders_def)
next
  case False
  then have nsq: "\<not> squeezed rb d" by (auto simp: squeezed_def)
  from False consider "squeeze rb d = []" | "squeeze rb d = ''none''" by auto
  then show ?thesis
  proof cases
    case 1
    then show ?thesis using nsq
      by (simp add: emitRect_def Let_def run_def vertexCount_pushAll vertexCount_updates
          vertexCount_tileStep upt_rec sameEncoders_def)
  next
    case 2
    then show ?thesis using nsq
      by (simp add: emitRect_def Let_def run_def vertexCount_pushAll vertexCount_updates
          vertexCount_tileStep upt_rec sameEncoders_def)
  qed
qed

lemma rectDatum_eq:
  "rectDatum rb d =
     (if skipped rb d then Inr rb
      else emitRect rb d
             (max (fst (visibleRange rb)) (min (xAccessor rb d) (x2Accessor rb d)))
             (min (snd (visibleRange rb)) (max (xAccessor rb d) (x2Accessor rb d))))"
  by (cases "visibleRange rb") (auto simp: rectDatum_def skipped_def Let_def min_def max_def)

lemma rectDatum_count:
  assumes "knownSqueeze rb d"
  shows "\<exists>rb'. rectDatum rb d = Inr rb' \<and> sameEncoders rb rb'
           \<and> rangeMap rb' = rangeMap rb
           \<and> vertexCount (variableBuilder rb') =
               vertexCount (variableBuilder rb) + rectVertices rb d"
proof (cases "skipped rb d")
  case True
  then show ?thesis by (simp add: rectDatum_eq rectVertices_def sameEncoders_refl)
next
  case False
  then show ?thesis using emitRect_count [OF assms]
    by (simp add: rectDatum_eq rectVertices_def)
qed

lemma rectLoop_count:
  "\<forall>d \<in> set ds. knownSqueeze rb d \<Longrightarrow>
   \<exists>rb'. rectLoop ds rb = Inr rb' \<and> sameEncoders rb rb'
      \<and> rangeMap rb' = rangeMap rb
      \<and> vertexCount (variableBuilder rb') =
          vertexCount (variableBuilder rb) + batchVertices rb ds"
proof (induction ds arbitrary: rb)
  case Nil
  then show ?case by (simp add: sameEncoders_refl batchVertices_def)
next
  case (Cons d ds)
  from Cons.prems have "knownSqueeze rb d" by simp
  from rectDatum_count [OF this] obtain rb1 where
    1: "rectDatum rb d = Inr rb1" and
    f1: "sameEncoders rb rb1" and
    r1: "rangeMap rb1 = rangeMap rb" and
    c1: "vertexCount (variableBuilder rb1) = vertexCount (variableBuilder rb) + rectVertices rb d"
    by blast
  from Cons.prems sameEncoders_funs(1) [OF f1] have "\<forall>e \<in> set ds. knownSqueeze rb1 e" by simp
  from Cons.IH [OF this] obtain rb2 where
    2: "rectLoop ds rb1 = Inr rb2" and
    f2: "sameEncoders rb1 rb2" and
    r2: "rangeMap rb2 = rangeMap rb1" and
    c2: "vertexCount (variableBuilder rb2) =
           vertexCount (variableBuilder rb1) + batchVertices rb1 ds"
    by blast
  have "batchVertices rb (d # ds) = rectVertices rb d + batchVertices rb1 ds"
    by (simp add: sameEncoders_funs(3) [OF f1]) (simp add: batchVertices_def)
  then show ?case using 1 2 c1 c2 r1 r2 sameEncoders_trans [OF f1 f2] by simp
qed

lemma rect_addBatch_count:
  assumes "\<forall>d \<in> set ds. knownSqueeze rb d"
  shows "\<exists>rb'. rect_addBatch key ds rb = Inr rb' \<and> sameEncoders rb rb'
      \<and> vertexCount (variableBuilder rb') = vertexCount (variableBuilder rb) + batchVertices rb ds
      \<and> rangeMap rb' =
          (if batchVertices rb ds \<noteq> 0
           then AList.update key \<lparr>offset = vertexCount (variableBuilder rb),
                                  count = batchVertices rb ds\<rparr> (rangeMap rb)
           else rangeMap rb)"
proof -
  from rectLoop_count [OF assms] obtain rb1 where
    1: "rectLoop ds rb = Inr rb1" and
    f1: "sameEncoders rb rb1" and
    rm: "rangeMap rb1 = rangeMap rb" and
    c1: "vertexCount (variableBuilder rb1) =
           vertexCount (variableBuilder rb) + batchVertices rb ds"
    by blast
  show ?thesis
  proof (cases "batchVertices rb ds = 0")
    case True
    then show ?thesis using 1 c1 rm f1 by (simp add: rect_addBatch_def)
  next
    case False
    then show ?thesis using 1 c1 rm f1
      by (simp add: rect_addBatch_def Let_def sameEncoders_def)
  qed
qed

lemma rect_addBatches_ranges:
  "\<forall>(k, ds) \<in> set bs. \<forall>d \<in> set ds. knownSqueeze rb d \<Longrightarrow>
   \<exists>rb'. rect_addBatches bs rb = Inr rb' \<and> sameEncoders rb rb'
      \<and> (vertexCount (variableBuilder rb'), rangeMap rb') =
          ranges (map (\<lambda>(k, ds). (k, batchVertices rb ds)) bs)
            (vertexCount (variableBuilder rb), rangeMap rb)"
proof (induction bs arbitrary: rb)
  case Nil
  then show ?case by (simp add: sameEncoders_refl)
next
  case (Cons b bs)
  obtain k ds where b: "b = (k, ds)" by (cases b)
  with Cons.prems have "\<forall>d \<in> set ds. knownSqueeze rb d" by simp
  from rect_addBatch_count [OF this, of k] obtain rb1 where
    1: "rect_addBatch k ds rb = Inr rb1" and
    f1: "sameEncoders rb rb1" and
    c1: "vertexCount (variableBuilder rb1) = vertexCount (variableBuilder rb) + batchVertices rb ds" and
    r1: "rangeMap rb1 =
          (if batchVertices rb ds \<noteq> 0
           then AList.update k \<lparr>offset = vertexCount (variableBuilder rb),
                                  count = batchVertices rb ds\<rparr> (rangeMap rb)
           else rangeMap rb)"
    by blast
  from Cons.prems sameEncoders_funs(1) [OF f1]
  have "\<forall>(k, ds) \<in> set bs. \<forall>d \<in> set ds. knownSqueeze rb1 d" by simp
  from Cons.IH [OF this] obtain rb2 where
    2: "rect_addBatches bs rb1 = Inr rb2" and
    f2: "sameEncoders rb1 rb2" and
    c2: "(vertexCount (variableBuilder rb2), rangeMap rb2) =
          ranges (map (\<lambda>(k, ds). (k, batchVertices rb1 ds)) bs)
            (vertexCount (variableBuilder rb1), rangeMap rb1)"
    by blast
  show ?case using 1 2 b c1 r1 c2 sameEncoders_funs(3) [OF f1] sameEncoders_trans [OF f1 f2]
    by simp
qed

lemma vertexCount_updateFromDatum:
  "vertexCount (updateFromDatum conv d b) = vertexCount b"
  by (simp add: vertexCount_def updateFromDatum_def)

lemma vertexCount_rule_updates:
  "vertexCount (updateSide v b) = vertexCount b"
  "vertexCount (updatePos v b) = vertexCount b"
  by (simp_all add: vertexCount_def updateSide_def updatePos_def)

lemma ruleDatum_count:
  "vertexCount (variableBuilder (ruleDatum rb d)) = vertexCount (variableBuilder rb) + 6"
  "rangeMap (ruleDatum rb d) = rangeMap rb"
  by (simp_all add: ruleDatum_def ruleTileStep_def run_def Let_def upt_rec vertexCount_pushAll
      vertexCount_rule_updates vertexCount_updateFromDatum)

lemma ruleLoop_count:
  "vertexCount (variableBuilder (fold (\<lambda>d b. ruleDatum b d) ds rb)) =
     vertexCount (variableBuilder rb) + 6 * length ds"
  "rangeMap (fold (\<lambda>d b. ruleDatum b d) ds rb) = rangeMap rb"
  by (induction ds arbitrary: rb) (simp_all add: ruleDatum_count)

lemma rule_addBatch_count:
  "vertexCount (variableBuilder (rule_addBatch key ds rb)) =
     vertexCount (variableBuilder rb) + 6 * length ds"
  "rangeMap (rule_addBatch key ds rb) =
     (if 6 * length ds \<noteq> 0
      then AList.update key \<lparr>offset = vertexCount (variableBuilder rb), count = 6 * length ds\<rparr>
             (rangeMap rb)
      else rangeMap rb)"
  by (simp_all add: rule_addBatch_def Let_def ruleLoop_count)

lemma rule_addBatches_ranges:
  "(vertexCount (variableBuilder (rule_addBatches bs rb)), rangeMap (rule_addBatches bs rb)) =
     ranges (map (\<lambda>(k, ds). (k, 6 * length ds)) bs)
       (vertexCount (variableBuilder rb), rangeMap rb)"
proof (induction bs arbitrary: rb)
  case Nil
  then show ?case by simp
next
  case (Cons b bs)
  obtain k ds where b: "b = (k, ds)" by (cases b)
  show ?case using Cons.IH [of "rule_addBatch k ds rb"] b
    by (simp add: rule_addBatch_count)
qed

lemma vertexCount_text_updates:
  "vertexCount (updateCX v b) = vertexCount b"
  "vertexCount (updateCY v b) = vertexCount b"
  "vertexCount (updateTX v b) = vertexCount b"
  "vertexCount (updateTY v b) = vertexCount b"
  "vertexCount (updateTextWidth v b) = vertexCount b"
  by (simp_all add: vertexCount_def updateCX_def updateCY_def updateTX_def updateTY_def
      updateTextWidth_def)

lemma glyphLoop_count:
  "vertexCount (glyphLoop base scale bl gs x b) =
     vertexCount b + 6 * length (filter (\<lambda>g. g_id g \<noteq> 32) gs)"
  by (induction gs arbitrary: x b)
     (simp_all add: Let_def run_def vertexCount_pushAll vertexCount_text_updates)

lemma getChar_fallback: "chars tb 63 \<noteq> None \<Longrightarrow> \<exists>g. getChar tb c = Some g"
  by (auto simp: getChar_def split: option.splits)

lemma resolveGlyphs_fallback:
  "chars tb 63 \<noteq> None \<Longrightarrow>
   \<exists>gs. resolveGlyphs tb cs = Some gs
      \<and> length (filter (\<lambda>g. g_id g \<noteq> 32) gs) = glyphCount tb cs"
proof (induction cs)
  case Nil
  then show ?case by (simp add: glyphCount_def)
next
  case (Cons c cs)
  from getChar_fallback [OF Cons.prems] obtain g where g: "getChar tb c = Some g" by blast
  from Cons.IH [OF Cons.prems] obtain gs where
    gs: "resolveGlyphs tb cs = Some gs"
    "length (filter (\<lambda>g. g_id g \<noteq> 32) gs) = glyphCount tb cs" by blast
  show ?case using g gs by (simp add: glyphCount_def)
qed

lemma sameFont_refl: "sameFont tb tb"
  by (simp add: sameFont_def)

lemma sameFont_trans: "sameFont a b \<Longrightarrow> sameFont b c \<Longrightarrow> sameFont a c"
  by (simp add: sameFont_def)

lemma sameFont_funs:
  assumes "sameFont tb tb'"
  shows "chars tb' = chars tb" and "textVertices tb' = textVertices tb"
    and "glyphCount tb' = glyphCount tb" and "textOf tb' = textOf tb"
proof -
  show c: "chars tb' = chars tb" and t: "textOf tb' = textOf tb"
    using assms by (simp_all add: sameFont_def)
  have "getChar tb' = getChar tb" unfolding getChar_def c ..
  then show g: "glyphCount tb' = glyphCount tb" by (simp add: glyphCount_def fun_eq_iff)
  show "textVertices tb' = textVertices tb" by (simp add: textVertices_def fun_eq_iff g t)
qed

lemma textDatum_count:
  assumes "chars tb 63 \<noteq> None"
  shows "\<exists>tb'. textDatum bl tb d = Inr tb' \<and> sameFont tb tb' \<and> rangeMap tb' = rangeMap tb
           \<and> vertexCount (variableBuilder tb') =
               vertexCount (variableBuilder tb) + 6 * glyphCount tb (textOf tb d)"
proof (cases "textOf tb d")
  case Nil
  then show ?thesis by (simp add: textDatum_def sameFont_refl glyphCount_def)
next
  case (Cons c0 rest)
  from resolveGlyphs_fallback [OF assms, of "c0 # rest"] obtain gs where
    gs: "resolveGlyphs tb (c0 # rest) = Some gs"
    "length (filter (\<lambda>g. g_id g \<noteq> 32) gs) = glyphCount tb (c0 # rest)" by blast
  from getChar_fallback [OF assms] obtain g where g: "getChar tb c0 = Some g" by blast
  show ?thesis using Cons gs g
    by (simp add: textDatum_def Let_def glyphLoop_count vertexCount_text_updates
        vertexCount_updateFromDatum sameFont_def del: resolveGlyphs.simps)
qed

lemma textLoop_count:
  "chars tb 63 \<noteq> None \<Longrightarrow>
   \<exists>tb'. textLoop bl ds tb = Inr tb' \<and> sameFont tb tb' \<and> rangeMap tb' = rangeMap tb
      \<and> vertexCount (variableBuilder tb') = vertexCount (variableBuilder tb) + textVertices tb ds"
proof (induction ds arbitrary: tb)
  case Nil
  then show ?case by (simp add: sameFont_refl textVertices_def)
next
  case (Cons d ds)
  from textDatum_count [OF Cons.prems] obtain tb1 where
    1: "textDatum bl tb d = Inr tb1" and
    f1: "sameFont tb tb1" and
    r1: "rangeMap tb1 = rangeMap tb" and
    c1: "vertexCount (variableBuilder tb1) =
           vertexCount (variableBuilder tb) + 6 * glyphCount tb (textOf tb d)"
    by blast
  from Cons.prems sameFont_funs(1) [OF f1] have "chars tb1 63 \<noteq> None" by simp
  from Cons.IH [OF this] obtain tb2 where
    2: "textLoop bl ds tb1 = Inr tb2" and
    f2: "sameFont tb1 tb2" and
    r2: "rangeMap tb2 = rangeMap tb1" and
    c2: "vertexCount (variableBuilder tb2) = vertexCount (variableBuilder tb1) + textVertices tb1 ds"
    by blast
  have "textVertices tb (d # ds) = 6 * glyphCount tb (textOf tb d) + textVertices tb1 ds"
    by (simp add: sameFont_funs(2) [OF f1]) (simp add: textVertices_def)
  then show ?case using 1 2 c1 c2 r1 r2 sameFont_trans [OF f1 f2] by simp
qed

lemma text_addBatch_count:
  assumes "chars tb 63 \<noteq> None"
  shows "\<exists>tb'. text_addBatch key ds tb = Inr tb' \<and> sameFont tb tb'
      \<and> vertexCount (variableBuilder tb') = vertexCount (variableBuilder tb) + textVertices tb ds
      \<and> rangeMap tb' =
          (if textVertices tb ds \<noteq> 0
           then AList.update key \<lparr>offset = vertexCount (variableBuilder tb),
                                  count = textVertices tb ds\<rparr> (rangeMap tb)
           else rangeMap tb)"
proof -
  from getChar_fallback [OF assms] obtain gx gX where
    g: "getChar tb 120 = Some gx" "getChar tb 88 = Some gX" by blast
  define bl where "bl = (if baseline tb = ''top'' then - 5 + (g_height gX - 5 * 2)
                             else if baseline tb = ''middle'' then - 5 + (g_height gX - 5 * 2) / 2
                             else - 5)"
  from textLoop_count [OF assms, of bl ds] obtain tb1 where
    1: "textLoop bl ds tb = Inr tb1" and
    f1: "sameFont tb tb1" and
    rm: "rangeMap tb1 = rangeMap tb" and
    c1: "vertexCount (variableBuilder tb1) = vertexCount (variableBuilder tb) + textVertices tb ds"
    by blast
  show ?thesis
  proof (cases "textVertices tb ds = 0")
    case True
    then show ?thesis using g 1 c1 rm f1
      by (simp add: text_addBatch_def Let_def bl_def [symmetric])
  next
    case False
    then show ?thesis using g 1 c1 rm f1
      by (simp add: text_addBatch_def Let_def bl_def [symmetric] sameFont_def)
  qed
qed

lemma text_addBatches_ranges:
  "chars tb 63 \<noteq> None \<Longrightarrow>
   \<exists>tb'. text_addBatches bs tb = Inr tb' \<and> sameFont tb tb'
      \<and> (vertexCount (variableBuilder tb'), rangeMap tb') =
          ranges (map (\<lambda>(k, ds). (k, textVertices tb ds)) bs)
            (vertexCount (variableBuilder tb), rangeMap tb)"
proof (induction bs arbitrary: tb)
  case Nil
  then show ?case by (simp add: sameFont_refl)
next
  case (Cons b bs)
  obtain k ds where b: "b = (k, ds)" by (cases b)
  from text_addBatch_count [OF Cons.prems, of k ds] obtain tb1 where
    1: "text_addBatch k ds tb = Inr tb1" and
    f1: "sameFont tb tb1" and
    c1: "vertexCount (variableBuilder tb1) = vertexCount (variableBuilder tb) + textVertices tb ds" and
    r1: "rangeMap tb1 =
          (if textVertices tb ds \<noteq> 0
           then AList.update k \<lparr>offset = vertexCount (variableBuilder tb),
                                  count = textVertices tb ds\<rparr> (rangeMap tb)
           else rangeMap tb)"
    by blast
  from Cons.prems sameFont_funs(1) [OF f1] have "chars tb1 63 \<noteq> None" by simp
  from Cons.IH [OF this] obtain tb2 where
    2: "text_addBatches bs tb1 = Inr tb2" and
    f2: "sameFont tb1 tb2" and
    c2: "(vertexCount (variableBuilder tb2), rangeMap tb2) =
          ranges (map (\<lambda>(k, ds). (k, textVertices tb1 ds)) bs)
            (vertexCount (variableBuilder tb1), rangeMap tb1)"
    by blast
  show ?case using 1 2 b c1 r1 c2 sameFont_funs(2) [OF f1] sameFont_trans [OF f1 f2]
    by simp
qed

lemma batchVertices_eq:
  "batchVertices rb ds =
     6 * length (filter (\<lambda>d. \<not> skipped rb d \<and> \<not> squeezed rb d) ds)
     + 5 * length (filter (\<lambda>d. \<not> skipped rb d \<and> squeezed rb d) ds)"
  by (induction ds) (auto simp: batchVertices_def rectVertices_def)

lemma emitRect_sameEncoders: "emitRect rb d x x2 = Inr rb' \<Longrightarrow> sameEncoders rb rb'"
  by (auto simp: emitRect_def Let_def sameEncoders_def split: if_splits option.splits)

lemma rectDatum_sameEncoders: "rectDatum rb d = Inr rb' \<Longrightarrow> sameEncoders rb rb'"
  by (auto simp: rectDatum_eq sameEncoders_refl emitRect_sameEncoders split: if_splits)

lemma sameEncoders_preswapped: "sameEncoders rb rb' \<Longrightarrow> preswapped rb' = preswapped rb"
  by (simp add: sameEncoders_def preswapped_def fun_eq_iff)

lemma updateFromDatum_same:
  "conv d' = conv d \<Longrightarrow> updateFromDatum conv d' = updateFromDatum conv d"
  by (simp add: fun_eq_iff updateFromDatum_def)

lemma emitRect_preswapped:
  assumes "preswapped rb d d'"
  shows "emitRect rb d' x x2 = emitRect rb d x x2"
proof -
  have u: "updateFromDatum (converters rb) d' = updateFromDatum (converters rb) d"
    by (rule updateFromDatum_same) (use assms in \<open>simp add: preswapped_def\<close>)
  have y: "yAccessor rb d' = min (yAccessor rb d) (y2Accessor rb d)"
          "y2Accessor rb d' = max (yAccessor rb d) (y2Accessor rb d)"
          "squeeze rb d' = squeeze rb d"
    using assms by (simp_all add: preswapped_def)
  show ?thesis unfolding emitRect_def u y by (simp add: min_def max_def Let_def)
qed

lemma skipped_preswapped: "preswapped rb d d' \<Longrightarrow> skipped rb d' = skipped rb d"
  by (simp add: skipped_def preswapped_def)

lemma rectDatum_preswapped:
  assumes "preswapped rb d d'"
  shows "rectDatum rb d' = rectDatum rb d"
proof -
  have "min (xAccessor rb d') (x2Accessor rb d') = min (xAccessor rb d) (x2Accessor rb d)"
       "max (xAccessor rb d') (x2Accessor rb d') = max (xAccessor rb d) (x2Accessor rb d)"
    using assms by (simp_all add: preswapped_def)
  then show ?thesis
    by (simp add: rectDatum_eq skipped_preswapped [OF assms] emitRect_preswapped [OF assms])
qed

lemma rectLoop_preswapped:
  "list_all2 (preswapped rb) ds ds' \<Longrightarrow> rectLoop ds' rb = rectLoop ds rb"
proof (induction ds arbitrary: ds' rb)
  case Nil
  then show ?case by simp
next
  case (Cons d ds)
  then obtain e es where ds': "ds' = e # es" and p: "preswapped rb d e"
    and ps: "list_all2 (preswapped rb) ds es"
    by (auto simp: list_all2_Cons1)
  show ?case
  proof (cases "rectDatum rb d")
    case (Inl err)
    then show ?thesis using ds' rectDatum_preswapped [OF p] by simp
  next
    case (Inr rb1)
    from rectDatum_sameEncoders [OF Inr] have "preswapped rb1 = preswapped rb"
      by (rule sameEncoders_preswapped)
    with ps have "list_all2 (preswapped rb1) ds es" by simp
    from Cons.IH [OF this] show ?thesis using ds' Inr rectDatum_preswapped [OF p] by simp
  qed
qed

lemmas builder_ops = run_def pushAll_def updateX_def updateY_def updateWidth_def updateHeight_def
  updateFromDatum_def tileStep_def

lemma sameEncoders_sym: "sameEncoders a b \<Longrightarrow> sameEncoders b a"
  by (simp add: sameEncoders_def)

lemma emitRect_sameGeometry:
  assumes "sameGeometry rb rb'" and "keepsSize rb"
    and "yAccessor rb d' = min (yAccessor rb d) (y2Accessor rb d)"
    and "y2Accessor rb d' = max (yAccessor rb d) (y2Accessor rb d)"
    and "squeeze rb d' = squeeze rb d"
  shows "rel_sum (=) sameGeometry (emitRect rb d x x2) (emitRect rb' d' x x2)"
proof -
  from assms(1) have se: "sameEncoders rb rb'" by (simp add: sameGeometry_def)
  then have cfg: "converters rb' = converters rb" "yAccessor rb' = yAccessor rb"
    "y2Accessor rb' = y2Accessor rb" "squeeze rb' = squeeze rb"
    by (simp_all add: sameEncoders_def)
  have ks: "width (converters rb d v) = width v" "height (converters rb d v) = height v" for d v
    using assms(2) by (simp_all add: keepsSize_def)
  define y where "y = (if yAccessor rb d > y2Accessor rb d then y2Accessor rb d else yAccessor rb d)"
  define y2 where "y2 = (if yAccessor rb d > y2Accessor rb d then yAccessor rb d else y2Accessor rb d)"
  have y': "(if yAccessor rb d' > y2Accessor rb d' then y2Accessor rb d' else yAccessor rb d') = y"
    and y2': "(if yAccessor rb d' > y2Accessor rb d' then yAccessor rb d' else y2Accessor rb d') = y2"
    unfolding assms(3,4) y_def y2_def by (simp_all add: min_def max_def)
  have l: "emitRect rb d x x2 =
     (let b = updateFromDatum (converters rb) d (variableBuilder rb); sq = squeeze rb d
      in if sq \<noteq> [] \<and> sq \<noteq> ''none'' then
           (case squeeze_coords sq x x2 y y2 of
              None \<Rightarrow> Inl TypeError
            | Some c \<Rightarrow>
                Inr (rb\<lparr>variableBuilder :=
                  run [updateX (s_ax c), updateY (s_ay c), pushAll, pushAll,
                       updateX (s_bx c), updateY (s_by c), pushAll,
                       updateX (s_cx c), updateY (s_cy c), pushAll, pushAll] b\<rparr>))
         else
           Inr (rb\<lparr>variableBuilder :=
             run [updateFromDatum (converters rb) d, updateX x2, updateWidth (x2 - x),
                  updateHeight (y2 - y), updateY y2, pushAll]
               (fold (tileStep x y y2 (x2 - x) (y2 - y) 1) [0 ..< Suc 1]
                  (run [updateX x, updateWidth (- (x2 - x)), updateY y, updateHeight (- (y2 - y)),
                        pushAll] b))\<rparr>))"
    unfolding emitRect_def Let_def y_def [symmetric] y2_def [symmetric] by simp
  have r: "emitRect rb' d' x x2 =
     (let b = updateFromDatum (converters rb) d' (variableBuilder rb'); sq = squeeze rb d
      in if sq \<noteq> [] \<and> sq \<noteq> ''none'' then
           (case squeeze_coords sq x x2 y y2 of
              None \<Rightarrow> Inl TypeError
            | Some c \<Rightarrow>
                Inr (rb'\<lparr>variableBuilder :=
                  run [updateX (s_ax c), updateY (s_ay c), pushAll, pushAll,
                       updateX (s_bx c), updateY (s_by c), pushAll,
                       updateX (s_cx c), updateY (s_cy c), pushAll, pushAll] b\<rparr>))
         else
           Inr (rb'\<lparr>variableBuilder :=
             run [updateFromDatum (converters rb) d', updateX x2, updateWidth (x2 - x),
                  updateHeight (y2 - y), updateY y2, pushAll]
               (fold (tileStep x y y2 (x2 - x) (y2 - y) 1) [0 ..< Suc 1]
                  (run [updateX x, updateWidth (- (x2 - x)), updateY y, updateHeight (- (y2 - y)),
                        pushAll] b))\<rparr>))"
    unfolding emitRect_def Let_def cfg y' y2' assms(5) by simp
  show ?thesis
  proof (cases "squeeze rb d \<noteq> [] \<and> squeeze rb d \<noteq> ''none''")
    case True
    show ?thesis
    proof (cases "squeeze_coords (squeeze rb d) x x2 y y2")
      case None
      then show ?thesis using True unfolding l r by simp
    next
      case (Some c)
      then show ?thesis using True assms(1) unfolding l r
        by (simp add: Let_def builder_ops sameGeometry_def sameEncoders_def geometry_def ks)
    qed
  next
    case False
    then consider "squeeze rb d = []" | "squeeze rb d = ''none''" by blast
    then show ?thesis
    proof cases
      case 1
      then show ?thesis using assms(1) unfolding l r
        by (simp add: Let_def builder_ops sameGeometry_def sameEncoders_def geometry_def ks upt_rec)
    next
      case 2
      then show ?thesis using assms(1) unfolding l r
        by (simp add: Let_def builder_ops sameGeometry_def sameEncoders_def geometry_def ks upt_rec)
    qed
  qed
qed


lemma sameGeometry_refl: "sameGeometry rb rb"
  by (simp add: sameGeometry_def sameEncoders_refl)

lemma sameGeometry_encoders:
  assumes "sameGeometry rb rb'"
  shows "skipped rb' = skipped rb" and "coordsSwapped rb' = coordsSwapped rb"
    and "keepsSize rb' = keepsSize rb" and "visibleRange rb' = visibleRange rb"
    and "xAccessor rb' = xAccessor rb" and "x2Accessor rb' = x2Accessor rb"
  using assms
  by (simp_all add: sameGeometry_def sameEncoders_def skipped_def coordsSwapped_def keepsSize_def
      fun_eq_iff)

lemma skipped_coordsSwapped: "coordsSwapped rb d d' \<Longrightarrow> skipped rb d' = skipped rb d"
  by (simp add: skipped_def coordsSwapped_def)

lemma rectDatum_sameGeometry:
  assumes g: "sameGeometry rb rb'" and k: "keepsSize rb" and c: "coordsSwapped rb d d'"
  shows "rel_sum (=) sameGeometry (rectDatum rb d) (rectDatum rb' d')"
proof -
  from c have x: "min (xAccessor rb d') (x2Accessor rb d') = min (xAccessor rb d) (x2Accessor rb d)"
       "max (xAccessor rb d') (x2Accessor rb d') = max (xAccessor rb d) (x2Accessor rb d)"
    by (simp_all add: coordsSwapped_def)
  from c have y: "yAccessor rb d' = min (yAccessor rb d) (y2Accessor rb d)"
       "y2Accessor rb d' = max (yAccessor rb d) (y2Accessor rb d)"
       "squeeze rb d' = squeeze rb d"
    by (simp_all add: coordsSwapped_def)
  show ?thesis
  proof (cases "skipped rb d")
    case True
    then show ?thesis
      using g by (simp add: rectDatum_eq sameGeometry_encoders [OF g] skipped_coordsSwapped [OF c])
  next
    case False
    then show ?thesis
      using emitRect_sameGeometry [OF g k y]
      by (simp add: rectDatum_eq sameGeometry_encoders [OF g] skipped_coordsSwapped [OF c] x)
  qed
qed

lemma sameEncoders_geometry_funs:
  assumes "sameEncoders rb rb'"
  shows "coordsSwapped rb' = coordsSwapped rb" and "keepsSize rb' = keepsSize rb"
  using assms by (simp_all add: sameEncoders_def coordsSwapped_def keepsSize_def fun_eq_iff)

lemma rectLoop_sameGeometry:
  "list_all2 (coordsSwapped rb) ds ds' \<Longrightarrow> keepsSize rb \<Longrightarrow> sameGeometry rb rb'
     \<Longrightarrow> rel_sum (=) sameGeometry (rectLoop ds rb) (rectLoop ds' rb')"
proof (induction ds arbitrary: ds' rb rb')
  case Nil
  then show ?case by simp
next
  case (Cons d ds)
  then obtain e es where ds': "ds' = e # es" and p: "coordsSwapped rb d e"
    and ps: "list_all2 (coordsSwapped rb) ds es"
    by (auto simp: list_all2_Cons1)
  from rectDatum_sameGeometry [OF Cons.prems(3) Cons.prems(2) p]
  have r: "rel_sum (=) sameGeometry (rectDatum rb d) (rectDatum rb' e)" .
  show ?case
  proof (cases "rectDatum rb d")
    case (Inl err)
    with r show ?thesis using ds' by (cases "rectDatum rb' e") simp_all
  next
    case (Inr rb1)
    with r obtain rb1' where r': "rectDatum rb' e = Inr rb1'" and g1: "sameGeometry rb1 rb1'"
      by (cases "rectDatum rb' e") simp_all
    from rectDatum_sameEncoders [OF Inr] have se: "sameEncoders rb rb1" .
    from ps Cons.prems(2) have "list_all2 (coordsSwapped rb1) ds es" "keepsSize rb1"
      by (simp_all add: sameEncoders_geometry_funs [OF se])
    from Cons.IH [OF this g1] show ?thesis using ds' Inr r' by simp
  qed
qed

lemma rect_addBatch_sameGeometry:
  assumes "list_all2 (coordsSwapped rb) ds ds'" and "keepsSize rb"
  shows "rel_sum (=) sameGeometry (rect_addBatch key ds rb) (rect_addBatch key ds' rb)"
proof -
  from rectLoop_sameGeometry [OF assms sameGeometry_refl]
  have r: "rel_sum (=) sameGeometry (rectLoop ds rb) (rectLoop ds' rb)" .
  show ?thesis
  proof (cases "rectLoop ds rb")
    case (Inl err)
    with r show ?thesis by (cases "rectLoop ds' rb") (simp_all add: rect_addBatch_def)
  next
    case (Inr rb1)
    with r obtain rb1' where r': "rectLoop ds' rb = Inr rb1'" and g: "sameGeometry rb1 rb1'"
      by (cases "rectLoop ds' rb") simp_all
    from g have "length (pushed (variableBuilder rb1')) = length (pushed (variableBuilder rb1))"
      unfolding sameGeometry_def by (metis length_map)
    with g show ?thesis
      by (simp add: rect_addBatch_def Inr r' Let_def vertexCount_def sameGeometry_def
          sameEncoders_def)
  qed
qed

lemma emitRect_samePositions:
  assumes "samePositions rb rb'"
    and "yAccessor rb d' = min (yAccessor rb d) (y2Accessor rb d)"
    and "y2Accessor rb d' = max (yAccessor rb d) (y2Accessor rb d)"
    and "squeeze rb d' = squeeze rb d"
  shows "rel_sum (=) samePositions (emitRect rb d x x2) (emitRect rb' d' x x2)"
proof -
  from assms(1) have se: "sameEncoders rb rb'" by (simp add: samePositions_def)
  then have cfg: "converters rb' = converters rb" "yAccessor rb' = yAccessor rb"
    "y2Accessor rb' = y2Accessor rb" "squeeze rb' = squeeze rb"
    by (simp_all add: sameEncoders_def)
  define y where "y = (if yAccessor rb d > y2Accessor rb d then y2Accessor rb d else yAccessor rb d)"
  define y2 where "y2 = (if yAccessor rb d > y2Accessor rb d then yAccessor rb d else y2Accessor rb d)"
  have y': "(if yAccessor rb d' > y2Accessor rb d' then y2Accessor rb d' else yAccessor rb d') = y"
    and y2': "(if yAccessor rb d' > y2Accessor rb d' then yAccessor rb d' else y2Accessor rb d') = y2"
    unfolding assms(2,3) y_def y2_def by (simp_all add: min_def max_def)
  have l: "emitRect rb d x x2 =
     (let b = updateFromDatum (converters rb) d (variableBuilder rb); sq = squeeze rb d
      in if sq \<noteq> [] \<and> sq \<noteq> ''none'' then
           (case squeeze_coords sq x x2 y y2 of
              None \<Rightarrow> Inl TypeError
            | Some c \<Rightarrow>
                Inr (rb\<lparr>variableBuilder :=
                  run [updateX (s_ax c), updateY (s_ay c), pushAll, pushAll,
                       updateX (s_bx c), updateY (s_by c), pushAll,
                       updateX (s_cx c), updateY (s_cy c), pushAll, pushAll] b\<rparr>))
         else
           Inr (rb\<lparr>variableBuilder :=
             run [updateFromDatum (converters rb) d, updateX x2, updateWidth (x2 - x),
                  updateHeight (y2 - y), updateY y2, pushAll]
               (fold (tileStep x y y2 (x2 - x) (y2 - y) 1) [0 ..< Suc 1]
                  (run [updateX x, updateWidth (- (x2 - x)), updateY y, updateHeight (- (y2 - y)),
                        pushAll] b))\<rparr>))"
    unfolding emitRect_def Let_def y_def [symmetric] y2_def [symmetric] by simp
  have r: "emitRect rb' d' x x2 =
     (let b = updateFromDatum (converters rb) d' (variableBuilder rb'); sq = squeeze rb d
      in if sq \<noteq> [] \<and> sq \<noteq> ''none'' then
           (case squeeze_coords sq x x2 y y2 of
              None \<Rightarrow> Inl TypeError
            | Some c \<Rightarrow>
                Inr (rb'\<lparr>variableBuilder :=
                  run [updateX (s_ax c), updateY (s_ay c), pushAll, pushAll,
                       updateX (s_bx c), updateY (s_by c), pushAll,
                       updateX (s_cx c), updateY (s_cy c), pushAll, pushAll] b\<rparr>))
         else
           Inr (rb'\<lparr>variableBuilder :=
             run [updateFromDatum (converters rb) d', updateX x2, updateWidth (x2 - x),
                  updateHeight (y2 - y), updateY y2, pushAll]
               (fold (tileStep x y y2 (x2 - x) (y2 - y) 1) [0 ..< Suc 1]
                  (run [updateX x, updateWidth (- (x2 - x)), updateY y, updateHeight (- (y2 - y)),
                        pushAll] b))\<rparr>))"
    unfolding emitRect_def Let_def cfg y' y2' assms(4) by simp
  show ?thesis
  proof (cases "squeeze rb d \<noteq> [] \<and> squeeze rb d \<noteq> ''none''")
    case True
    show ?thesis
    proof (cases "squeeze_coords (squeeze rb d) x x2 y y2")
      case None
      then show ?thesis using True unfolding l r by simp
    next
      case (Some c)
      then show ?thesis using True assms(1) unfolding l r
        by (simp add: Let_def builder_ops samePositions_def sameEncoders_def position_def)
    qed
  next
    case False
    then consider "squeeze rb d = []" | "squeeze rb d = ''none''" by blast
    then show ?thesis
    proof cases
      case 1
      then show ?thesis using assms(1) unfolding l r
        by (simp add: Let_def builder_ops samePositions_def sameEncoders_def position_def upt_rec)
    next
      case 2
      then show ?thesis using assms(1) unfolding l r
        by (simp add: Let_def builder_ops samePositions_def sameEncoders_def position_def upt_rec)
    qed
  qed
qed


lemma samePositions_refl: "samePositions rb rb"
  by (simp add: samePositions_def sameEncoders_refl)

lemma samePositions_encoders:
  assumes "samePositions rb rb'"
  shows "skipped rb' = skipped rb" and "coordsSwapped rb' = coordsSwapped rb"
    and "visibleRange rb' = visibleRange rb"
    and "xAccessor rb' = xAccessor rb" and "x2Accessor rb' = x2Accessor rb"
  using assms
  by (simp_all add: samePositions_def sameEncoders_def skipped_def coordsSwapped_def fun_eq_iff)

lemma rectDatum_samePositions:
  assumes g: "samePositions rb rb'" and c: "coordsSwapped rb d d'"
  shows "rel_sum (=) samePositions (rectDatum rb d) (rectDatum rb' d')"
proof -
  from c have x: "min (xAccessor rb d') (x2Accessor rb d') = min (xAccessor rb d) (x2Accessor rb d)"
       "max (xAccessor rb d') (x2Accessor rb d') = max (xAccessor rb d) (x2Accessor rb d)"
    by (simp_all add: coordsSwapped_def)
  from c have y: "yAccessor rb d' = min (yAccessor rb d) (y2Accessor rb d)"
       "y2Accessor rb d' = max (yAccessor rb d) (y2Accessor rb d)"
       "squeeze rb d' = squeeze rb d"
    by (simp_all add: coordsSwapped_def)
  show ?thesis
  proof (cases "skipped rb d")
    case True
    then show ?thesis
      using g by (simp add: rectDatum_eq samePositions_encoders [OF g] skipped_coordsSwapped [OF c])
  next
    case False
    then show ?thesis
      using emitRect_samePositions [OF g y]
      by (simp add: rectDatum_eq samePositions_encoders [OF g] skipped_coordsSwapped [OF c] x)
  qed
qed

lemma rectLoop_samePositions:
  "list_all2 (coordsSwapped rb) ds ds' \<Longrightarrow> samePositions rb rb'
     \<Longrightarrow> rel_sum (=) samePositions (rectLoop ds rb) (rectLoop ds' rb')"
proof (induction ds arbitrary: ds' rb rb')
  case Nil
  then show ?case by simp
next
  case (Cons d ds)
  then obtain e es where ds': "ds' = e # es" and p: "coordsSwapped rb d e"
    and ps: "list_all2 (coordsSwapped rb) ds es"
    by (auto simp: list_all2_Cons1)
  from rectDatum_samePositions [OF Cons.prems(2) p]
  have r: "rel_sum (=) samePositions (rectDatum rb d) (rectDatum rb' e)" .
  show ?case
  proof (cases "rectDatum rb d")
    case (Inl err)
    with r show ?thesis using ds' by (cases "rectDatum rb' e") simp_all
  next
    case (Inr rb1)
    with r obtain rb1' where r': "rectDatum rb' e = Inr rb1'" and g1: "samePositions rb1 rb1'"
      by (cases "rectDatum rb' e") simp_all
    from rectDatum_sameEncoders [OF Inr] have se: "sameEncoders rb rb1" .
    from ps have "list_all2 (coordsSwapped rb1) ds es"
      by (simp add: sameEncoders_geometry_funs [OF se])
    from Cons.IH [OF this g1] show ?thesis using ds' Inr r' by simp
  qed
qed

lemma rect_addBatch_samePositions:
  assumes "list_all2 (coordsSwapped rb) ds ds'"
  shows "rel_sum (=) samePositions (rect_addBatch key ds rb) (rect_addBatch key ds' rb)"
proof -
  from rectLoop_samePositions [OF assms samePositions_refl]
  have r: "rel_sum (=) samePositions (rectLoop ds rb) (rectLoop ds' rb)" .
  show ?thesis
  proof (cases "rectLoop ds rb")
    case (Inl err)
    with r show ?thesis by (cases "rectLoop ds' rb") (simp_all add: rect_addBatch_def)
  next
    case (Inr rb1)
    with r obtain rb1' where r': "rectLoop ds' rb = Inr rb1'" and g: "samePositions rb1 rb1'"
      by (cases "rectLoop ds' rb") simp_all
    from g have "length (pushed (variableBuilder rb1')) = length (pushed (variableBuilder rb1))"
      unfolding samePositions_def by (metis length_map)
    with g show ?thesis
      by (simp add: rect_addBatch_def Inr r' Let_def vertexCount_def samePositions_def
          sameEncoders_def)
  qed
qed

subsection \<open>Ranges of batches\<close>

text \<open>
  Claim C6, amended. For fresh builders of each kind, and any sequence of \<open>addBatch\<close>
  calls whose keys are pairwise distinct and none of which throws (rect: the squeeze
  values are known; text: the font has the glyph of code 63): the ranges of the range
  map, in insertion order, tile the vertices pushed so far without gap or overlap, and
  their counts sum to the number of vertices; the keys of the map are the keys of the
  batches that produced a vertex, in call order; a batch without vertices has no entry;
  and the count of an entry is the number of vertices of its batch: the number of its
  points for the VertexBuilder (point and connection marks), six for each unsqueezed and
  five for each squeezed rect that is not skipped, six for each rule, six for each
  character of a text whose glyph is not the space. For the VertexBuilder the number of
  vertices is the \<open>vertexCount\<close> that \<open>toArrays\<close> reports.
\<close>

theorem batch_ranges_partition:
  assumes "distinct (map fst bs)"
    and "vb = addBatches bs (newVertexBuilder conv v0)"
    and "distinct (map fst rbs)"
    and "rb0 = newRectVertexBuilder rconv rv0 vr xa x2a ya y2a sq"
    and "\<forall>(k, ds) \<in> set rbs. \<forall>d \<in> set ds. knownSqueeze rb0 d"
    and "distinct (map fst lbs)"
    and "lb = rule_addBatches lbs (newVertexBuilder lconv lv0)"
    and "distinct (map fst tbs)"
    and "tb0 = newTextVertexBuilder tconv tv0 metadataChars base scale al bl text"
    and "chars tb0 63 \<noteq> None"
  shows "batchRanges (vertexCountOut (toArrays vb)) (rangeMapOut (toArrays vb))
           (map (\<lambda>(k, ds). (k, length ds)) bs)
       \<and> length (arrays (toArrays vb)) = vertexCountOut (toArrays vb)
       \<and> (\<exists>rb. rect_addBatches rbs rb0 = Inr rb
            \<and> batchRanges (vertexCount (variableBuilder rb)) (rangeMap rb)
                 (map (\<lambda>(k, ds).
                    (k, 6 * length (filter (\<lambda>d. \<not> skipped rb0 d \<and> \<not> squeezed rb0 d) ds)
                        + 5 * length (filter (\<lambda>d. \<not> skipped rb0 d \<and> squeezed rb0 d) ds))) rbs))
       \<and> batchRanges (vertexCount (variableBuilder lb)) (rangeMap lb)
            (map (\<lambda>(k, ds). (k, 6 * length ds)) lbs)
       \<and> (\<exists>tb. text_addBatches tbs tb0 = Inr tb
            \<and> batchRanges (vertexCount (variableBuilder tb)) (rangeMap tb)
                 (map (\<lambda>(k, ds). (k, sum_list (map (\<lambda>d. 6 * glyphCount tb0 (textOf tb0 d)) ds)))
                    tbs))"
proof -
  have "(index vb, rangeMap vb) = ranges (map (\<lambda>(k, ds). (k, length ds)) bs) (0, [])"
    unfolding assms(2) addBatches_ranges by (simp add: newVertexBuilder_def)
  from ranges_summary_map [OF assms(1) this]
  have basep: "batchRanges (index vb) (rangeMap vb) (map (\<lambda>(k, ds). (k, length ds)) bs)" .
  have len: "length (pushed (variableBuilder vb)) = index vb"
    unfolding assms(2) by (rule addBatches_pushed) (simp add: newVertexBuilder_def)
  from rect_addBatches_ranges [OF assms(5)] obtain rb where
    r: "rect_addBatches rbs rb0 = Inr rb" and
    rr: "(vertexCount (variableBuilder rb), rangeMap rb) =
          ranges (map (\<lambda>(k, ds). (k, batchVertices rb0 ds)) rbs)
            (vertexCount (variableBuilder rb0), rangeMap rb0)"
    by blast
  have "(vertexCount (variableBuilder rb), rangeMap rb) =
          ranges (map (\<lambda>(k, ds). (k, batchVertices rb0 ds)) rbs) (0, [])"
    using rr by (simp add: assms(4) newRectVertexBuilder_def vertexCount_def)
  from ranges_summary_map [OF assms(3) this]
  have rectp: "batchRanges (vertexCount (variableBuilder rb)) (rangeMap rb)
                (map (\<lambda>(k, ds).
                    (k, 6 * length (filter (\<lambda>d. \<not> skipped rb0 d \<and> \<not> squeezed rb0 d) ds)
                        + 5 * length (filter (\<lambda>d. \<not> skipped rb0 d \<and> squeezed rb0 d) ds))) rbs)"
    by (simp add: batchVertices_eq)
  have "(vertexCount (variableBuilder lb), rangeMap lb) =
          ranges (map (\<lambda>(k, ds). (k, 6 * length ds)) lbs) (0, [])"
    unfolding assms(7) rule_addBatches_ranges by (simp add: newVertexBuilder_def vertexCount_def)
  from ranges_summary_map [OF assms(6) this]
  have rulep: "batchRanges (vertexCount (variableBuilder lb)) (rangeMap lb)
                (map (\<lambda>(k, ds). (k, 6 * length ds)) lbs)" .
  from text_addBatches_ranges [OF assms(10)] obtain tb where
    t: "text_addBatches tbs tb0 = Inr tb" and
    tr: "(vertexCount (variableBuilder tb), rangeMap tb) =
          ranges (map (\<lambda>(k, ds). (k, textVertices tb0 ds)) tbs)
            (vertexCount (variableBuilder tb0), rangeMap tb0)"
    by blast
  have "(vertexCount (variableBuilder tb), rangeMap tb) =
          ranges (map (\<lambda>(k, ds). (k, textVertices tb0 ds)) tbs) (0, [])"
    using tr by (simp add: assms(9) newTextVertexBuilder_def vertexCount_def)
  from ranges_summary_map [OF assms(8) this]
  have textp: "batchRanges (vertexCount (variableBuilder tb)) (rangeMap tb)
                (map (\<lambda>(k, ds). (k, sum_list (map (\<lambda>d. 6 * glyphCount tb0 (textOf tb0 d)) ds)))
                   tbs)"
    by (simp add: textVertices_def)
  have ta: "rangeMapOut (toArrays vb) = rangeMap vb" "vertexCountOut (toArrays vb) = index vb"
    "arrays (toArrays vb) = pushed (variableBuilder vb)"
    by (simp_all add: toArrays_def)
  show ?thesis unfolding ta
    by (intro conjI basep len exI [of _ rb] r rectp rulep exI [of _ tb] t textp)
qed

theorem batch_ranges_partition_witness:
  "distinct (map fst [(''a'', [1::nat, 2]), (''b'', []), (''c'', [3])])
   \<and> partitions 0
        (rangeMapOut (toArrays (addBatches [(''a'', [1::nat, 2]), (''b'', []), (''c'', [3])]
           (newVertexBuilder (\<lambda>d v. d) 0))))
        (vertexCountOut (toArrays (addBatches [(''a'', [1::nat, 2]), (''b'', []), (''c'', [3])]
           (newVertexBuilder (\<lambda>d v. d) 0))))
   \<and> (\<exists>rb. rect_addBatches
              [(''sampleA'', [(0, 10, 0, 1, [])]),
               (''sampleB'', [(30, 20, 1, 0, ''top''), (500, 600, 0, 1, [])])]
              exampleRectBuilder = Inr rb
          \<and> partitions 0 (rangeMap rb) (vertexCount (variableBuilder rb)))
   \<and> partitions 0
        (rangeMap (rule_addBatches [(''r'', [1::nat]), (''s'', [2, 3])]
           (newVertexBuilder (\<lambda>d v. v) \<lparr>side = 0, pos = 0, ruleAttrs = ()\<rparr>)))
        (vertexCount (variableBuilder (rule_addBatches [(''r'', [1::nat]), (''s'', [2, 3])]
           (newVertexBuilder (\<lambda>d v. v) \<lparr>side = 0, pos = 0, ruleAttrs = ()\<rparr>))))
   \<and> chars exampleTextBuilder 63 \<noteq> None
   \<and> (\<exists>tb. text_addBatches [(''t'', [[65, 32, 66], []]), (''u'', [[32]]), (''v'', [[65]])]
              exampleTextBuilder = Inr tb
          \<and> partitions 0 (rangeMap tb) (vertexCount (variableBuilder tb)))"
proof -
  have h1: "distinct (map fst [(''a'', [1::nat, 2]), (''b'', []), (''c'', [3])])" by simp
  have h3: "distinct (map fst [(''sampleA'', [(0::real, 10::real, 0::real, 1::real, [])]),
               (''sampleB'', [(30, 20, 1, 0, ''top''), (500, 600, 0, 1, [])])])" by simp
  have h5: "\<forall>(k, ds) \<in> set [(''sampleA'', [(0, 10, 0, 1, [])]),
               (''sampleB'', [(30, 20, 1, 0, ''top''), (500, 600, 0, 1, [])])].
              \<forall>d \<in> set ds. knownSqueeze exampleRectBuilder d"
    by (simp add: knownSqueeze_def exampleRectBuilder_def newRectVertexBuilder_def)
  have h6: "distinct (map fst [(''r'', [1::nat]), (''s'', [2, 3])])" by simp
  have h8: "distinct (map fst [(''t'', [[65::nat, 32, 66], []]), (''u'', [[32]]), (''v'', [[65]])])"
    by simp
  have h10: "chars exampleTextBuilder 63 \<noteq> None"
    by (simp add: exampleTextBuilder_def newTextVertexBuilder_def)
  show ?thesis
    using h1 h10 batch_ranges_partition [OF h1 refl h3 exampleRectBuilder_def h5 h6 refl h8
        exampleTextBuilder_def h10, of "\<lambda>d v. d" 0 "\<lambda>d v. v" "\<lparr>side = 0, pos = 0, ruleAttrs = ()\<rparr>"]
    unfolding batchRanges_def
    by blast
qed

text \<open>
  Claim C6 as stated fails when a key is used twice: the second \<open>rangeMap.set\<close>
  replaces the first entry, so the counts sum to 1 where \<open>toArrays\<close> reports 2 vertices,
  and vertex 0 is in no range.
\<close>

theorem batch_ranges_duplicate_key:
  "rangeMapOut (toArrays (addBatch ''a'' [2] (addBatch ''a'' [1::nat] (newVertexBuilder (\<lambda>d v. d) 0))))
     = [(''a'', \<lparr>offset = 1, count = 1\<rparr>)]
   \<and> vertexCountOut (toArrays (addBatch ''a'' [2] (addBatch ''a'' [1::nat] (newVertexBuilder (\<lambda>d v. d) 0)))) = 2
   \<and> totalCount (rangeMapOut (toArrays (addBatch ''a'' [2] (addBatch ''a'' [1::nat] (newVertexBuilder (\<lambda>d v. d) 0)))))
       \<noteq> vertexCountOut (toArrays (addBatch ''a'' [2] (addBatch ''a'' [1::nat] (newVertexBuilder (\<lambda>d v. d) 0))))
   \<and> \<not> partitions 0
        (rangeMapOut (toArrays (addBatch ''a'' [2] (addBatch ''a'' [1::nat] (newVertexBuilder (\<lambda>d v. d) 0)))))
        (vertexCountOut (toArrays (addBatch ''a'' [2] (addBatch ''a'' [1::nat] (newVertexBuilder (\<lambda>d v. d) 0)))))"
  by (simp add: toArrays_def addBatch_def newVertexBuilder_def totalCount_def Let_def)

text \<open>
  \<open>RectVertexBuilder.addBatch\<close> (like that of the rule and the text builder) counts
  with \<open>variableBuilder.vertexCount\<close> and never advances \<open>index\<close>, which the inherited
  \<open>toArrays\<close> reports: after one rect of six vertices the reported vertex count is 0.
\<close>

lemma rect_toArrays_vertexCount:
  "\<exists>rb. rect_addBatch ''sampleA'' [(0, 10, 0, 1, [])] exampleRectBuilder = Inr rb
     \<and> rangeMapOut (toArrays rb) = [(''sampleA'', \<lparr>offset = 0, count = 6\<rparr>)]
     \<and> length (arrays (toArrays rb)) = 6
     \<and> vertexCountOut (toArrays rb) = 0"
  by (simp add: rect_addBatch_def rectDatum_def emitRect_def exampleRectBuilder_def
      newRectVertexBuilder_def toArrays_def Let_def run_def tileStep_def upt_rec
      vertexCount_def pushAll_def updateX_def updateY_def updateWidth_def updateHeight_def
      updateFromDatum_def)

subsection \<open>Rect marks: swap and clip\<close>

text \<open>
  Claim C7, amended. Let two batches correspond datum by datum: the second has the data
  of the first with the coordinate pairs put in order (\<open>x \<le> x2\<close>, \<open>y \<le> y2\<close>) and the
  same squeeze. Then \<open>RectVertexBuilder.addBatch\<close> throws on both or on none, and the two
  builders have the same range map, the same number of vertices and, vertex by vertex,
  the same \<open>x\<close> and \<open>y\<close>; when the converters write the attributes of their own channels
  only, leaving \<open>width\<close> and \<open>height\<close> (which have an updater and no converter) as they
  are, the vertices have the same \<open>width\<close> and \<open>height\<close> as well. The attributes that the
  converters write are those of each datum: when the converters give the same values on
  a datum and its ordered form, the two builders are equal.
\<close>

theorem rect_swap_normalization:
  "(list_all2 (coordsSwapped rb) ds ds'
      \<longrightarrow> rel_sum (=) samePositions (rect_addBatch key ds rb) (rect_addBatch key ds' rb))
   \<and> (keepsSize rb \<and> list_all2 (coordsSwapped rb) ds ds'
        \<longrightarrow> rel_sum (=) sameGeometry (rect_addBatch key ds rb) (rect_addBatch key ds' rb))
   \<and> (list_all2 (preswapped rb) ds ds' \<longrightarrow> rect_addBatch key ds' rb = rect_addBatch key ds rb)"
proof (intro conjI impI)
  assume "list_all2 (coordsSwapped rb) ds ds'"
  then show "rel_sum (=) samePositions (rect_addBatch key ds rb) (rect_addBatch key ds' rb)"
    by (rule rect_addBatch_samePositions)
next
  assume "keepsSize rb \<and> list_all2 (coordsSwapped rb) ds ds'"
  then show "rel_sum (=) sameGeometry (rect_addBatch key ds rb) (rect_addBatch key ds' rb)"
    by (simp add: rect_addBatch_sameGeometry)
next
  assume "list_all2 (preswapped rb) ds ds'"
  then show "rect_addBatch key ds' rb = rect_addBatch key ds rb"
    by (simp add: rect_addBatch_def rectLoop_preswapped)
qed

theorem rect_swap_normalization_witness:
  "keepsSize exampleRawRectBuilder
   \<and> list_all2 (coordsSwapped exampleRawRectBuilder)
     [(30, 20, 1, 0, ''top''), (5, 50, 3, 2, [])] [(20, 30, 0, 1, ''top''), (5, 50, 2, 3, [])]
   \<and> rel_sum (=) samePositions
       (rect_addBatch ''s'' [(30, 20, 1, 0, ''top''), (5, 50, 3, 2, [])] exampleRawRectBuilder)
       (rect_addBatch ''s'' [(20, 30, 0, 1, ''top''), (5, 50, 2, 3, [])] exampleRawRectBuilder)
   \<and> rel_sum (=) sameGeometry
       (rect_addBatch ''s'' [(30, 20, 1, 0, ''top''), (5, 50, 3, 2, [])] exampleRawRectBuilder)
       (rect_addBatch ''s'' [(20, 30, 0, 1, ''top''), (5, 50, 2, 3, [])] exampleRawRectBuilder)
   \<and> list_all2 (preswapped exampleRectBuilder)
     [(30, 20, 1, 0, ''top''), (5, 50, 3, 2, [])] [(20, 30, 0, 1, ''top''), (5, 50, 2, 3, [])]
   \<and> rect_addBatch ''s'' [(20, 30, 0, 1, ''top''), (5, 50, 2, 3, [])] exampleRectBuilder
       = rect_addBatch ''s'' [(30, 20, 1, 0, ''top''), (5, 50, 3, 2, [])] exampleRectBuilder"
proof -
  have h: "list_all2 (preswapped exampleRectBuilder)
     [(30, 20, 1, 0, ''top''), (5, 50, 3, 2, [])] [(20, 30, 0, 1, ''top''), (5, 50, 2, 3, [])]"
    by (simp add: preswapped_def exampleRectBuilder_def newRectVertexBuilder_def)
  have k: "keepsSize exampleRawRectBuilder"
    by (simp add: keepsSize_def exampleRawRectBuilder_def newRectVertexBuilder_def split_def)
  have c: "list_all2 (coordsSwapped exampleRawRectBuilder)
     [(30, 20, 1, 0, ''top''), (5, 50, 3, 2, [])] [(20, 30, 0, 1, ''top''), (5, 50, 2, 3, [])]"
    by (simp add: coordsSwapped_def exampleRawRectBuilder_def newRectVertexBuilder_def)
  from h
    rect_swap_normalization [of exampleRectBuilder
      "[(30, 20, 1, 0, ''top''), (5, 50, 3, 2, [])]" "[(20, 30, 0, 1, ''top''), (5, 50, 2, 3, [])]"
      "''s''"]
  have a: "rect_addBatch ''s'' [(20, 30, 0, 1, ''top''), (5, 50, 2, 3, [])] exampleRectBuilder
       = rect_addBatch ''s'' [(30, 20, 1, 0, ''top''), (5, 50, 3, 2, [])] exampleRectBuilder"
    by blast
  from k c
    rect_swap_normalization [of exampleRawRectBuilder
      "[(30, 20, 1, 0, ''top''), (5, 50, 3, 2, [])]" "[(20, 30, 0, 1, ''top''), (5, 50, 2, 3, [])]"
      "''s''"]
  have b: "rel_sum (=) samePositions
       (rect_addBatch ''s'' [(30, 20, 1, 0, ''top''), (5, 50, 3, 2, [])] exampleRawRectBuilder)
       (rect_addBatch ''s'' [(20, 30, 0, 1, ''top''), (5, 50, 2, 3, [])] exampleRawRectBuilder)"
    and b': "rel_sum (=) sameGeometry
       (rect_addBatch ''s'' [(30, 20, 1, 0, ''top''), (5, 50, 3, 2, [])] exampleRawRectBuilder)
       (rect_addBatch ''s'' [(20, 30, 0, 1, ''top''), (5, 50, 2, 3, [])] exampleRawRectBuilder)"
    by blast+
  from k c b b' h a show ?thesis by (intro conjI)
qed

text \<open>
  Claim C7 as stated fails: the vertices are not identical. The constructor of
  VertexBuilder installs raw converters for \<open>x\<close>, \<open>x2\<close>, \<open>y\<close> and \<open>y2\<close>, which copy the
  coordinates of the datum as they are. With converters that copy \<open>x\<close> and \<open>x2\<close>, the six
  vertices of the rect \<open>(30, 20, 1, 0)\<close> carry \<open>(30, 20)\<close> and those of its ordered form
  \<open>(20, 30, 0, 1)\<close> carry \<open>(20, 30)\<close>.
\<close>

theorem rect_swap_raw_attributes:
  "coordsSwapped exampleRawRectBuilder (30, 20, 1, 0, []) (20, 30, 0, 1, [])
   \<and> map_sum id (map datumAttrs \<circ> pushed \<circ> variableBuilder)
         (rect_addBatch ''s'' [(30, 20, 1, 0, [])] exampleRawRectBuilder)
       = Inr [(30, 20), (30, 20), (30, 20), (30, 20), (30, 20), (30, 20)]
   \<and> map_sum id (map datumAttrs \<circ> pushed \<circ> variableBuilder)
         (rect_addBatch ''s'' [(20, 30, 0, 1, [])] exampleRawRectBuilder)
       = Inr [(20, 30), (20, 30), (20, 30), (20, 30), (20, 30), (20, 30)]
   \<and> rect_addBatch ''s'' [(30, 20, 1, 0, [])] exampleRawRectBuilder
       \<noteq> rect_addBatch ''s'' [(20, 30, 0, 1, [])] exampleRawRectBuilder"
  by (simp add: coordsSwapped_def rect_addBatch_def rectDatum_def emitRect_def
      exampleRawRectBuilder_def newRectVertexBuilder_def Let_def run_def tileStep_def upt_rec
      vertexCount_def pushAll_def updateX_def updateY_def updateWidth_def updateHeight_def
      updateFromDatum_def)

text \<open>
  Claim C8. With the visible range \<open>[lower, upper]\<close> and \<open>[x, x2]\<close> the extent of a
  datum after the swap: a datum fully outside the range leaves the builder as it is, so
  it adds no vertex to the batch; any other datum goes to vertex generation with the
  extent \<open>[max lower x, min upper x2]\<close>; and for a datum inside the range that extent is
  \<open>[x, x2]\<close> itself.
\<close>

theorem rect_visible_range_clip:
  assumes "visibleRange rb = (lower, upper)"
    and "x = min (xAccessor rb d) (x2Accessor rb d)"
    and "x2 = max (xAccessor rb d) (x2Accessor rb d)"
  shows "(x2 < lower \<or> upper < x \<longrightarrow>
            rectDatum rb d = Inr rb \<and> rectLoop (d # ds) rb = rectLoop ds rb)
       \<and> (\<not> (x2 < lower \<or> upper < x) \<longrightarrow>
            rectDatum rb d = emitRect rb d (max lower x) (min upper x2))
       \<and> (lower \<le> x \<and> x2 \<le> upper \<longrightarrow> rectDatum rb d = emitRect rb d x x2)"
proof -
  have sk: "skipped rb d \<longleftrightarrow> x2 < lower \<or> upper < x"
    using assms by (simp add: skipped_def)
  have 1: "x2 < lower \<or> upper < x \<longrightarrow>
            rectDatum rb d = Inr rb \<and> rectLoop (d # ds) rb = rectLoop ds rb"
    using sk by (simp add: rectDatum_eq)
  have 2: "\<not> (x2 < lower \<or> upper < x) \<longrightarrow>
            rectDatum rb d = emitRect rb d (max lower x) (min upper x2)"
    using sk assms by (simp add: rectDatum_eq)
  have "x \<le> x2" using assms by simp
  then have 3: "lower \<le> x \<and> x2 \<le> upper \<longrightarrow> rectDatum rb d = emitRect rb d x x2"
    using sk assms(1) unfolding rectDatum_eq [of rb d] assms(2) [symmetric] assms(3) [symmetric]
    by (auto simp: max_def min_def)
  from 1 2 3 show ?thesis by blast
qed

theorem rect_visible_range_clip_witness:
  "rectDatum exampleRectBuilder (200, 300, 0, 1, []) = Inr exampleRectBuilder
   \<and> rectDatum exampleRectBuilder (50, -50, 0, 1, [])
       = emitRect exampleRectBuilder (50, -50, 0, 1, []) 0 50
   \<and> rectDatum exampleRectBuilder (10, 20, 0, 1, [])
       = emitRect exampleRectBuilder (10, 20, 0, 1, []) 10 20"
proof -
  have vr: "visibleRange exampleRectBuilder = (0, 100)"
    by (simp add: exampleRectBuilder_def newRectVertexBuilder_def)
  have acc: "xAccessor exampleRectBuilder = (\<lambda>(x, x2, y, y2, s). x)"
    "x2Accessor exampleRectBuilder = (\<lambda>(x, x2, y, y2, s). x2)"
    by (simp_all add: exampleRectBuilder_def newRectVertexBuilder_def)
  show ?thesis
    using rect_visible_range_clip [OF vr refl refl, of "(200, 300, 0, 1, [])" "[]"]
      rect_visible_range_clip [OF vr refl refl, of "(50, -50, 0, 1, [])" "[]"]
      rect_visible_range_clip [OF vr refl refl, of "(10, 20, 0, 1, [])" "[]"]
    by (simp add: acc)
qed


section \<open>Properties of the parameter mediator\<close>

text \<open>The definitions that evaluate a program of calls on a concrete state.\<close>

lemmas mdefs = observe_def allocateSetter_def applySetter_def registerParam_def
  createExpression_def activateExprRefProps_def addListener_def addListenerStep_def
  invalidate_def invalidateStep_def batchPropertyChange_def runMicrotasks_def runTask_def
  updMediator_def getValue_def findValue_def listenersOf_def callExpr_def globalObject_def
  exampleCreateFunction_def newState_def newMediator_def setAdd_def setDelete_def
  getSetter_def Let_def

subsection \<open>Lookup\<close>

lemma findMediatorForParam_root [simp]:
  "findMediatorForParam s [] paramName =
     (if paramValues (mediators s []) paramName \<noteq> None then Some [] else None)"
  by (simp add: findMediatorForParam.simps [of s "[]"] parentFinder_def)

lemma findMediatorForParam_child [simp]:
  "findMediatorForParam s (c # p) paramName =
     (if paramValues (mediators s (c # p)) paramName \<noteq> None then Some (c # p)
      else findMediatorForParam s p paramName)"
  by (simp add: findMediatorForParam.simps [of s "c # p"] parentFinder_def)

lemma findMediatorForParam_find:
  "findMediatorForParam s m n = find (\<lambda>a. owns s a n) (chain m)"
  by (induction m) (auto simp: owns_def)

lemma findMediatorForParam_values:
  "\<forall>a. paramValues (mediators s' a) = paramValues (mediators s a) \<Longrightarrow>
   findMediatorForParam s' m n = findMediatorForParam s m n"
  by (induction m) auto

lemma findMediatorForParam_owner:
  "owns s m n \<Longrightarrow> findMediatorForParam s m n = Some m"
  by (cases m) (simp_all add: owns_def)

text \<open>
  Claim C1. \<open>getValue\<close> reads only the value store of its mediator: it gives the same
  answer in two states in which that store is the same. \<open>findValue\<close> returns the value
  at the first mediator of the parent chain, the mediator itself first, that owns the
  name, and \<open>undefined\<close> when none does. What a sibling holds is never visible: two
  states that differ only at the mediator \<open>a # p\<close> give the same \<open>findValue\<close> at its
  sibling \<open>b # p\<close>.
\<close>

theorem param_lookup_scoping:
  "(paramValues (mediators s' m) = paramValues (mediators s m) \<longrightarrow> getValue s' m n = getValue s m n)
   \<and> findValue s m n =
       (case find (\<lambda>a. owns s a n) (chain m) of
          None \<Rightarrow> Undefined
        | Some a \<Rightarrow> getValue s a n)
   \<and> ((\<forall>a \<in> set (chain m). \<not> owns s a n) \<longrightarrow> findValue s m n = Undefined)
   \<and> (a \<noteq> b \<and> (\<forall>x. x \<noteq> a # p \<longrightarrow> mediators s' x = mediators s x) \<longrightarrow>
        findValue s' (b # p) n = findValue s (b # p) n)"
proof -
  have 1: "paramValues (mediators s' m) = paramValues (mediators s m) \<longrightarrow>
           getValue s' m n = getValue s m n"
    by (simp add: getValue_def)
  have 2: "findValue s m n =
       (case find (\<lambda>a. owns s a n) (chain m) of
          None \<Rightarrow> Undefined
        | Some a \<Rightarrow> getValue s a n)"
    by (simp add: findValue_def findMediatorForParam_find)
  have 3: "(\<forall>a \<in> set (chain m). \<not> owns s a n) \<longrightarrow> findValue s m n = Undefined"
  proof
    assume "\<forall>a \<in> set (chain m). \<not> owns s a n"
    then have "find (\<lambda>a. owns s a n) (chain m) = None" by (simp add: find_None_iff)
    then show "findValue s m n = Undefined" unfolding 2 by simp
  qed
  have notin: "a # p \<notin> set (chain q)" if "length q \<le> length p" for q
    using that by (induction q) auto
  have 4: "a \<noteq> b \<and> (\<forall>x. x \<noteq> a # p \<longrightarrow> mediators s' x = mediators s x) \<longrightarrow>
        findValue s' (b # p) n = findValue s (b # p) n"
  proof (intro impI, elim conjE)
    assume ab: "a \<noteq> b" and same: "\<forall>x. x \<noteq> a # p \<longrightarrow> mediators s' x = mediators s x"
    have "a # p \<notin> set (chain (b # p))" using ab notin [of p] by simp
    then have eq: "\<forall>x \<in> set (chain (b # p)). mediators s' x = mediators s x"
      using same by metis
    have agree: "findMediatorForParam s' q n = findMediatorForParam s q n"
      if "\<forall>x \<in> set (chain q). mediators s' x = mediators s x" for q
      using that by (induction q) auto
    have "findMediatorForParam s' (b # p) n = findMediatorForParam s (b # p) n"
      by (rule agree [OF eq])
    moreover have "getValue s' x n = getValue s x n" if "findMediatorForParam s (b # p) n = Some x" for x
    proof -
      from that have "x \<in> set (chain (b # p))"
        unfolding findMediatorForParam_find by (metis find_Some_iff nth_mem)
      with eq have "mediators s' x = mediators s x" by blast
      then show ?thesis by (simp add: getValue_def)
    qed
    ultimately show "findValue s' (b # p) n = findValue s (b # p) n"
      by (simp add: findValue_def split: option.splits)
  qed
  from 1 2 3 4 show ?thesis by blast
qed

theorem param_lookup_scoping_witness:
  "observe (\<lambda>s. (getValue s [0] ''threshold'', findValue s [0] ''threshold'',
                 findValue s [5, 0] ''threshold'', getValue s [5, 0] ''threshold'',
                 findValue s [1] ''threshold''))
     (runCalls exampleCreateFunction 0 [AllocateSetter [0] ''threshold'' (JNum 10)] newState)
     = Some (JNum 10, JNum 10, JNum 10, Undefined, Undefined)
   \<and> findValue
         (updMediator [0] (\<lambda>md. md\<lparr>paramValues := [''threshold'' \<mapsto> JNum 10]\<rparr>) newState)
         [1] ''threshold''
       = findValue newState [1] ''threshold''
   \<and> findValue newState [1] ''threshold'' = Undefined"
  using param_lookup_scoping [of
      "updMediator [0] (\<lambda>md. md\<lparr>paramValues := [''threshold'' \<mapsto> JNum 10]\<rparr>) newState"
      "[]" newState "''threshold''" 0 1 "[]"]
  by (simp add: mdefs owns_def)

subsection \<open>Setters\<close>

lemma owns_updMediator_values:
  "owns (updMediator m (\<lambda>md. md\<lparr>paramValues := (paramValues md)(n \<mapsto> v)\<rparr>) s) a x
     \<longleftrightarrow> owns s a x \<or> (a = m \<and> x = n)"
  by (auto simp: owns_def updMediator_def)

lemma owns_batchPropertyChange: "owns (batchPropertyChange a key s) = owns s"
  by (simp add: owns_def batchPropertyChange_def Let_def fun_eq_iff)

lemma owns_mono:
  "setter cf k m n v s = Some s' \<Longrightarrow> owns s a x \<Longrightarrow> owns s' a x"
  "callListeners cf k ls s = Some s' \<Longrightarrow> owns s a x \<Longrightarrow> owns s' a x"
  "callListener cf k l s = Some s' \<Longrightarrow> owns s a x \<Longrightarrow> owns s' a x"
proof (induction cf k m n v s and cf k ls s and cf k l s arbitrary: s' and s' and s'
    rule: setter_callListeners_callListener.induct)
  case (1 cf k m paramName v s)
  show ?case
  proof (cases "v \<noteq> getValue s m paramName")
    case True
    let ?s1 = "updMediator m (\<lambda>md. md\<lparr>paramValues := (paramValues md)(paramName \<mapsto> v)\<rparr>) s"
    have o1: "owns ?s1 a x" using "1.prems"(2) by (simp add: owns_updMediator_values)
    show ?thesis
    proof (cases "paramListeners (mediators ?s1 m) paramName")
      case None
      with True "1.prems"(1) have "s' = ?s1" by (simp add: Let_def)
      with o1 show ?thesis by simp
    next
      case (Some ls)
      with True "1.prems"(1) have "callListeners cf k ls ?s1 = Some s'" by (simp add: Let_def)
      from "1.IH" [OF refl True refl Some this o1] show ?thesis .
    qed
  next
    case False
    with "1.prems" show ?thesis by simp
  qed
next
  case (2 cf k s)
  then show ?case by simp
next
  case (3 cf k l ls s)
  from "3.prems"(1) obtain s1 where a: "callListener cf k l s = Some s1"
    and b: "callListeners cf k ls s1 = Some s'"
    by (auto split: option.splits)
  from "3.IH"(2) [OF a b "3.IH"(1) [OF a "3.prems"(2)]] show ?case .
next
  case (4 cf l s)
  then show ?case by simp
next
  case (5 cf k l s)
  show ?case
  proof (cases "act l")
    case Callback
    with "5.prems" show ?thesis by (auto simp: owns_def)
  next
    case (Reapply m n e)
    with "5.prems"(1) have "setter cf k m n (callExpr cf s (m, e)) s = Some s'" by simp
    from "5.IH" [OF Reapply this "5.prems"(2)] show ?thesis .
  next
    case (BatchProp a' key)
    with "5.prems" show ?thesis by (auto simp: owns_batchPropertyChange)
  qed
qed

lemma bindGlobals_unknown:
  "name \<in> set gs \<Longrightarrow> findMediatorForParam s m name = None \<Longrightarrow>
   \<exists>g. bindGlobals s m src gs mfp = Inl (UnknownVariable g src)"
  by (induction gs arbitrary: mfp) (auto split: option.splits)

lemma callListeners_callbacks:
  "\<forall>l \<in> set ls. act l = Callback \<Longrightarrow>
   callListeners cf (Suc k) ls s = Some (s\<lparr>calls := calls s @ map lid ls\<rparr>)"
  by (induction ls arbitrary: s) auto

text \<open>
  Claim C2. The setter that \<open>allocateSetter\<close> returns and stores for \<open>name\<close> at \<open>m\<close> is
  \<open>RealSetter m name\<close>. Called with the stored value, it returns the state unchanged:
  no listener runs. Called with another value \<open>v\<close>, it stores \<open>v\<close> and then calls the
  listeners registered for \<open>name\<close> at \<open>m\<close> one after the other in registration order,
  each once; when these are callbacks of consumers, the call returns and the record of
  calls has grown by exactly these listeners, in that order.
\<close>

theorem setter_notifies:
  assumes "s1 = updMediator m (\<lambda>md. md\<lparr>paramValues := (paramValues md)(name \<mapsto> v)\<rparr>) s"
  shows "(v = getValue s m name \<longrightarrow> applySetter cf k (RealSetter m name) v s = Some s)
       \<and> (v \<noteq> getValue s m name \<longrightarrow>
            getValue s1 m name = v
            \<and> applySetter cf k (RealSetter m name) v s = callListeners cf k (listenersOf s m name) s1)
       \<and> (v \<noteq> getValue s m name \<and> (\<forall>l \<in> set (listenersOf s m name). act l = Callback) \<longrightarrow>
            applySetter cf (Suc k) (RealSetter m name) v s =
              Some (s1\<lparr>calls := calls s @ map lid (listenersOf s m name)\<rparr>))
       \<and> (\<forall>v0 s0 s' f. allocateSetter cf k m name v0 s0 = Some (Inr (s', f)) \<longrightarrow>
            f = RealSetter m name \<and> getSetter s' m name = Inr f)"
proof -
  have pl: "paramListeners (mediators s1 m) name = paramListeners (mediators s m) name"
    by (simp add: assms updMediator_def)
  have c: "calls s1 = calls s" by (simp add: assms updMediator_def)
  have 1: "v = getValue s m name \<longrightarrow> applySetter cf k (RealSetter m name) v s = Some s"
    by (simp add: applySetter_def)
  have eq: "applySetter cf k (RealSetter m name) v s = callListeners cf k (listenersOf s m name) s1"
    if "v \<noteq> getValue s m name" for k
    using that pl
    by (auto simp: applySetter_def Let_def listenersOf_def assms [symmetric] split: option.splits)
  have 2: "v \<noteq> getValue s m name \<longrightarrow>
            getValue s1 m name = v
            \<and> applySetter cf k (RealSetter m name) v s = callListeners cf k (listenersOf s m name) s1"
    using eq by (simp add: assms getValue_def updMediator_def)
  have 3: "v \<noteq> getValue s m name \<and> (\<forall>l \<in> set (listenersOf s m name). act l = Callback) \<longrightarrow>
            applySetter cf (Suc k) (RealSetter m name) v s =
              Some (s1\<lparr>calls := calls s @ map lid (listenersOf s m name)\<rparr>)"
    using eq callListeners_callbacks [of "listenersOf s m name" cf k s1] c by simp
  have 4: "\<forall>v0 s0 s' f. allocateSetter cf k m name v0 s0 = Some (Inr (s', f)) \<longrightarrow>
            f = RealSetter m name \<and> getSetter s' m name = Inr f"
    by (auto simp: allocateSetter_def getSetter_def updMediator_def split: if_splits option.splits)
  from 1 2 3 4 show ?thesis by blast
qed

theorem setter_notifies_witness:
  "applySetter exampleCreateFunction 0 (RealSetter [] ''a'') (JNum 1) exampleListening
     = Some exampleListening
   \<and> map_option (\<lambda>s. (getValue s [] ''a'', calls s))
        (applySetter exampleCreateFunction (Suc 0) (RealSetter [] ''a'') (JNum 2) exampleListening)
     = Some (JNum 2, [7, 8])"
proof -
  have g: "getValue exampleListening [] ''a'' = JNum 1"
    and l: "listenersOf exampleListening [] ''a''
              = [\<lparr>lid = 7, act = Callback\<rparr>, \<lparr>lid = 8, act = Callback\<rparr>]"
    and c: "calls exampleListening = []"
    by (simp_all add: exampleListening_def getValue_def listenersOf_def updMediator_def
        newState_def)
  from setter_notifies [OF refl, of "JNum 1" exampleListening "[]" "''a''" exampleCreateFunction 0]
  have "JNum 1 = getValue exampleListening [] ''a'' \<longrightarrow>
     applySetter exampleCreateFunction 0 (RealSetter [] ''a'') (JNum 1) exampleListening
     = Some exampleListening"
    by blast
  then have 1: "applySetter exampleCreateFunction 0 (RealSetter [] ''a'') (JNum 1) exampleListening
     = Some exampleListening"
    by (simp add: g)
  from setter_notifies [OF refl, of "JNum 2" exampleListening "[]" "''a''" exampleCreateFunction 0]
  have "JNum 2 \<noteq> getValue exampleListening [] ''a''
         \<and> (\<forall>l \<in> set (listenersOf exampleListening [] ''a''). act l = Callback) \<longrightarrow>
       applySetter exampleCreateFunction (Suc 0) (RealSetter [] ''a'') (JNum 2) exampleListening =
         Some ((updMediator [] (\<lambda>md. md\<lparr>paramValues := (paramValues md)(''a'' \<mapsto> JNum 2)\<rparr>)
                 exampleListening)
               \<lparr>calls := calls exampleListening @ map lid (listenersOf exampleListening [] ''a'')\<rparr>)"
    by blast
  then have 2: "applySetter exampleCreateFunction (Suc 0) (RealSetter [] ''a'') (JNum 2) exampleListening =
         Some ((updMediator [] (\<lambda>md. md\<lparr>paramValues := (paramValues md)(''a'' \<mapsto> JNum 2)\<rparr>)
                 exampleListening)\<lparr>calls := [7, 8]\<rparr>)"
    by (simp add: g l c)
  show ?thesis unfolding 1 2 by (simp add: getValue_def updMediator_def)
qed

text \<open>
  Claim C10. On a mediator \<open>m\<close> that has no setter for \<open>name\<close> and on whose parent
  chain \<open>name\<close> is unresolved, \<open>allocateSetter(name, undefined)\<close> succeeds with any
  bound on nested calls and returns the setter of \<open>name\<close>, which \<open>getSetter\<close> then
  finds; it changes no value store, so \<open>m\<close> still has no entry for \<open>name\<close>, no
  mediator of the chain owns it, \<open>findValue(name)\<close> is still \<open>undefined\<close>, and \<open>createExpression\<close> of a source not
  compiled before that refers to \<open>name\<close> fails with an unknown-variable error. Once the
  setter has been called with a value other than \<open>undefined\<close>, \<open>m\<close> owns \<open>name\<close>; and
  when nothing listens to \<open>name\<close> at \<open>m\<close> the call returns and \<open>findValue(name)\<close> is
  the value set.
\<close>

theorem allocateSetter_undefined:
  assumes "allocatedSetters (mediators s m) name = None"
    and "findMediatorForParam s m name = None"
    and "s1 = updMediator m
           (\<lambda>md. md\<lparr>allocatedSetters := (allocatedSetters md)(name \<mapsto> RealSetter m name)\<rparr>) s"
  shows "allocateSetter cf k m name Undefined s = Some (Inr (s1, RealSetter m name))
       \<and> getSetter s1 m name = Inr (RealSetter m name)
       \<and> (\<forall>a. paramValues (mediators s1 a) = paramValues (mediators s a))
       \<and> paramValues (mediators s1 m) name = None
       \<and> findMediatorForParam s1 m name = None
       \<and> findValue s1 m name = Undefined
       \<and> (\<forall>src. name \<in> set (globals (cf src)) \<and> expressions (mediators s1 m) src = None \<longrightarrow>
             (\<exists>g. createExpression cf m src s1 = Inl (UnknownVariable g src)))
       \<and> (\<forall>v s2. v \<noteq> Undefined \<and> applySetter cf k (RealSetter m name) v s1 = Some s2 \<longrightarrow>
            findMediatorForParam s2 m name = Some m)
       \<and> (\<forall>v. v \<noteq> Undefined \<and> listenersOf s1 m name = [] \<longrightarrow>
            (\<exists>s2. applySetter cf k (RealSetter m name) v s1 = Some s2 \<and> findValue s2 m name = v))"
proof -
  have pv: "paramValues (mediators s m) name = None"
    using assms(2) by (cases m) (simp_all split: if_splits)
  have gv: "getValue s m name = Undefined" using pv by (simp add: getValue_def)
  have 1: "allocateSetter cf k m name Undefined s = Some (Inr (s1, RealSetter m name))"
    using assms(1) gv by (simp add: allocateSetter_def assms(3))
  have 2: "getSetter s1 m name = Inr (RealSetter m name)"
    by (simp add: getSetter_def assms(3) updMediator_def)
  have 3: "\<forall>a. paramValues (mediators s1 a) = paramValues (mediators s a)"
    by (simp add: assms(3) updMediator_def)
  have 4: "paramValues (mediators s1 m) name = None" using 3 pv by simp
  have gv1: "getValue s1 m name = Undefined" using 4 by (simp add: getValue_def)
  have un: "findMediatorForParam s1 m name = None"
    using findMediatorForParam_values [OF 3] assms(2) by simp
  then have 5: "findValue s1 m name = Undefined" by (simp add: findValue_def)
  have ce: "\<forall>src. name \<in> set (globals (cf src)) \<and> expressions (mediators s1 m) src = None \<longrightarrow>
             (\<exists>g. createExpression cf m src s1 = Inl (UnknownVariable g src))"
  proof (intro allI impI, elim conjE)
    fix src
    assume g: "name \<in> set (globals (cf src))" and e: "expressions (mediators s1 m) src = None"
    from bindGlobals_unknown [OF g un] obtain g' where
      "bindGlobals s1 m src (globals (cf src)) [] = Inl (UnknownVariable g' src)" by blast
    with e show "\<exists>g. createExpression cf m src s1 = Inl (UnknownVariable g src)"
      by (simp add: createExpression_def)
  qed
  have 6: "\<forall>v s2. v \<noteq> Undefined \<and> applySetter cf k (RealSetter m name) v s1 = Some s2 \<longrightarrow>
            findMediatorForParam s2 m name = Some m"
  proof (intro allI impI, elim conjE)
    fix v s2
    assume v: "v \<noteq> Undefined" and ap: "applySetter cf k (RealSetter m name) v s1 = Some s2"
    let ?s = "updMediator m (\<lambda>md. md\<lparr>paramValues := (paramValues md)(name \<mapsto> v)\<rparr>) s1"
    have o: "owns ?s m name" by (simp add: owns_updMediator_values)
    have "owns s2 m name"
    proof (cases "paramListeners (mediators ?s m) name")
      case None
      with ap v gv1 have "s2 = ?s" by (simp add: applySetter_def Let_def)
      with o show ?thesis by simp
    next
      case (Some ls)
      with ap v gv1 have "callListeners cf k ls ?s = Some s2" by (simp add: applySetter_def Let_def)
      from owns_mono(2) [OF this o] show ?thesis .
    qed
    then show "findMediatorForParam s2 m name = Some m" by (rule findMediatorForParam_owner)
  qed
  have 7: "\<forall>v. v \<noteq> Undefined \<and> listenersOf s1 m name = [] \<longrightarrow>
            (\<exists>s2. applySetter cf k (RealSetter m name) v s1 = Some s2 \<and> findValue s2 m name = v)"
  proof (intro allI impI, elim conjE)
    fix v
    assume v: "v \<noteq> Undefined" and nl: "listenersOf s1 m name = []"
    let ?s = "updMediator m (\<lambda>md. md\<lparr>paramValues := (paramValues md)(name \<mapsto> v)\<rparr>) s1"
    have pl: "paramListeners (mediators ?s m) name = paramListeners (mediators s1 m) name"
      by (simp add: updMediator_def)
    have "applySetter cf k (RealSetter m name) v s1 = Some ?s"
      using v gv1 nl pl by (auto simp: applySetter_def Let_def listenersOf_def split: option.splits)
    moreover have "findValue ?s m name = v"
      using findMediatorForParam_owner [of ?s m name]
      by (simp add: findValue_def owns_updMediator_values) (simp add: getValue_def updMediator_def)
    ultimately show "\<exists>s2. applySetter cf k (RealSetter m name) v s1 = Some s2 \<and> findValue s2 m name = v"
      by blast
  qed
  from 1 2 3 4 un 5 ce 6 7 show ?thesis by blast
qed

theorem allocateSetter_undefined_witness:
  "allocatedSetters (mediators newState [0]) ''x'' = None
   \<and> findMediatorForParam newState [0] ''x'' = None
   \<and> allocateSetter exampleCreateFunction 0 [0] ''x'' Undefined newState
       = Some (Inr (updMediator [0]
            (\<lambda>md. md\<lparr>allocatedSetters := (allocatedSetters md)(''x'' \<mapsto> RealSetter [0] ''x'')\<rparr>)
            newState, RealSetter [0] ''x''))
   \<and> observe (\<lambda>s. (findValue s [0] ''x'', getSetter s [0] ''x'',
                    map_sum id snd (createExpression exampleCreateFunction [0] ''x+x'' s)))
        (runCalls exampleCreateFunction 0 [AllocateSetter [0] ''x'' Undefined] newState)
       = Some (Undefined, Inr (RealSetter [0] ''x''), Inl (UnknownVariable ''x'' ''x+x''))
   \<and> observe (\<lambda>s. (findValue s [0] ''x'', findMediatorForParam s [0] ''x'',
                    map_sum id snd (createExpression exampleCreateFunction [0] ''x+x'' s)))
        (runCalls exampleCreateFunction 0
           [AllocateSetter [0] ''x'' Undefined, ApplySetter (RealSetter [0] ''x'') (JNum 5)] newState)
       = Some (JNum 5, Some [0], Inr ([0], ''x+x''))"
proof -
  have h1: "allocatedSetters (mediators newState [0]) ''x'' = None"
    and h2: "findMediatorForParam newState [0] ''x'' = None"
    by (simp_all add: newState_def newMediator_def)
  from allocateSetter_undefined [OF h1 h2 refl, of exampleCreateFunction 0]
  have 3: "allocateSetter exampleCreateFunction 0 [0] ''x'' Undefined newState
       = Some (Inr (updMediator [0]
            (\<lambda>md. md\<lparr>allocatedSetters := (allocatedSetters md)(''x'' \<mapsto> RealSetter [0] ''x'')\<rparr>)
            newState, RealSetter [0] ''x''))"
    by blast
  have 4: "observe (\<lambda>s. (findValue s [0] ''x'', getSetter s [0] ''x'',
                    map_sum id snd (createExpression exampleCreateFunction [0] ''x+x'' s)))
        (runCalls exampleCreateFunction 0 [AllocateSetter [0] ''x'' Undefined] newState)
       = Some (Undefined, Inr (RealSetter [0] ''x''), Inl (UnknownVariable ''x'' ''x+x''))"
    by (simp add: mdefs)
  have 5: "observe (\<lambda>s. (findValue s [0] ''x'', findMediatorForParam s [0] ''x'',
                    map_sum id snd (createExpression exampleCreateFunction [0] ''x+x'' s)))
        (runCalls exampleCreateFunction 0
           [AllocateSetter [0] ''x'' Undefined, ApplySetter (RealSetter [0] ''x'') (JNum 5)] newState)
       = Some (JNum 5, Some [0], Inr ([0], ''x+x''))"
    by (simp add: mdefs)
  from h1 h2 3 4 5 show ?thesis by blast
qed

text \<open>
  Claim C4 at the failing input. After \<open>registerParam({name: "b", expr: "a"})\<close> with
  \<open>a = 1\<close>, the parameter \<open>b\<close> is 1 and \<open>getSetter("b")\<close> returns the real setter of
  \<open>b\<close>; calling it with 42 makes \<open>b\<close> 42 while \<open>a\<close> is still 1. The setter that
  \<open>registerParam\<close> returned changes nothing, and setting \<open>a\<close> to 10 makes \<open>b\<close> 10.
\<close>

theorem expression_param_set_through_getSetter:
  "observe (\<lambda>s. (getValue s [] ''b'', getSetter s [] ''b''))
     (runCalls exampleCreateFunction (Suc 0)
        [AllocateSetter [] ''a'' (JNum 1),
         RegisterParam [] \<lparr>param_name = ''b'', param_value = None, param_expr = Some ''a''\<rparr>]
        newState)
     = Some (JNum 1, Inr (RealSetter [] ''b''))
   \<and> observe (\<lambda>s. (getValue s [] ''a'', getValue s [] ''b''))
     (runCalls exampleCreateFunction (Suc 0)
        [AllocateSetter [] ''a'' (JNum 1),
         RegisterParam [] \<lparr>param_name = ''b'', param_value = None, param_expr = Some ''a''\<rparr>,
         ApplySetter (RealSetter [] ''b'') (JNum 42)]
        newState)
     = Some (JNum 1, JNum 42)
   \<and> observe (\<lambda>s. (getValue s [] ''a'', getValue s [] ''b''))
     (runCalls exampleCreateFunction (Suc 0)
        [AllocateSetter [] ''a'' (JNum 1),
         RegisterParam [] \<lparr>param_name = ''b'', param_value = None, param_expr = Some ''a''\<rparr>,
         ApplySetter NopSetter (JNum 42),
         ApplySetter (RealSetter [] ''a'') (JNum 10)]
        newState)
     = Some (JNum 10, JNum 10)"
  by (simp add: mdefs)

subsection \<open>Listeners of expressions\<close>

lemma setAdd_idem: "setAdd l (setAdd l xs) = setAdd l xs"
  by (simp add: setAdd_def)

lemma setAdd_member: "l \<in> set (setAdd l xs)"
  by (simp add: setAdd_def)

lemma fold_setDelete: "fold setDelete mine ls = filter (\<lambda>x. x \<notin> set mine) ls"
proof (induction mine arbitrary: ls)
  case Nil
  then show ?case by simp
next
  case (Cons a mine)
  have "filter (\<lambda>x. x \<notin> set mine) (filter (\<lambda>y. y \<noteq> a) ls) = filter (\<lambda>x. x \<notin> set (a # mine)) ls"
    by (induction ls) auto
  with Cons show ?case by (simp add: setDelete_def)
qed

lemma listenersOf_addListenerStep:
  "listenersOf (addListenerStep h l (g, w) s) w' g' =
     (if w' = w \<and> g' = g then setAdd l (listenersOf s w g) else listenersOf s w' g')"
  by (auto simp: addListenerStep_def Let_def updMediator_def listenersOf_def)

lemma expressions_addListenerStep:
  "expressions (mediators s (fst h)) (snd h) = Some e \<Longrightarrow>
   expressions (mediators (addListenerStep h l pm s) (fst h)) (snd h) =
     Some (e\<lparr>myListeners := setAdd l (myListeners e)\<rparr>)"
  by (cases pm) (auto simp: addListenerStep_def Let_def updMediator_def)

lemma listenersOf_fold_addListenerStep:
  "listenersOf (fold (addListenerStep h l) bs s) w' g' =
     (if (g', w') \<in> set bs then setAdd l (listenersOf s w' g') else listenersOf s w' g')"
proof (induction bs arbitrary: s)
  case Nil
  then show ?case by simp
next
  case (Cons b bs)
  obtain g w where b: "b = (g, w)" by (cases b)
  show ?case unfolding b
    by (simp add: Cons.IH listenersOf_addListenerStep setAdd_idem)
qed

lemma expressions_fold_addListenerStep:
  "expressions (mediators s (fst h)) (snd h) = Some e \<Longrightarrow> bs \<noteq> [] \<Longrightarrow>
   expressions (mediators (fold (addListenerStep h l) bs s) (fst h)) (snd h) =
     Some (e\<lparr>myListeners := setAdd l (myListeners e)\<rparr>)"
proof (induction bs arbitrary: s e)
  case Nil
  then show ?case by simp
next
  case (Cons b bs)
  have 1: "expressions (mediators (addListenerStep h l b s) (fst h)) (snd h) =
     Some (e\<lparr>myListeners := setAdd l (myListeners e)\<rparr>)"
    by (rule expressions_addListenerStep [OF Cons.prems(1)])
  show ?case
  proof (cases "bs = []")
    case True
    with 1 show ?thesis by simp
  next
    case False
    from Cons.IH [OF 1 False] show ?thesis by (simp add: setAdd_idem)
  qed
qed

lemma listenersOf_invalidateStep:
  "listenersOf (invalidateStep mine (g, w) s) w' g' =
     (if w' = w \<and> g' = g then filter (\<lambda>x. x \<notin> set mine) (listenersOf s w g)
      else listenersOf s w' g')"
  by (auto simp: invalidateStep_def Let_def updMediator_def listenersOf_def fold_setDelete
      split: option.splits)

lemma listenersOf_fold_invalidateStep:
  "listenersOf (fold (invalidateStep mine) bs s) w' g' =
     (if (g', w') \<in> set bs then filter (\<lambda>x. x \<notin> set mine) (listenersOf s w' g')
      else listenersOf s w' g')"
proof (induction bs arbitrary: s)
  case Nil
  then show ?case by simp
next
  case (Cons b bs)
  obtain g w where b: "b = (g, w)" by (cases b)
  show ?case unfolding b
    by (simp add: Cons.IH listenersOf_invalidateStep)
qed

lemma filter_setAdd:
  "filter (\<lambda>x. x \<notin> set (setAdd l mine)) (setAdd l ls) = filter (\<lambda>x. x \<noteq> l \<and> x \<notin> set mine) ls"
proof -
  have m: "set (setAdd l mine) = insert l (set mine)" by (auto simp: setAdd_def)
  have "filter (\<lambda>x. x \<notin> set (setAdd l mine)) xs = filter (\<lambda>x. x \<noteq> l \<and> x \<notin> set mine) xs" for xs
    unfolding m by (rule filter_cong) auto
  then show ?thesis by (simp add: setAdd_def)
qed

text \<open>
  Claim C3, amended. Let \<open>e\<close> be the expression of the handle \<open>h\<close>. \<open>addListener(l)\<close>
  adds \<open>l\<close> to the registry of every bound variable at its owning mediator (a set: a
  listener that is there already stays once) and changes no other registry.
  \<open>invalidate()\<close> removes from the registry of every bound variable at its owning
  mediator every listener of \<open>myListeners\<close>, that is every listener ever passed to this
  expression's \<open>addListener\<close>, and nothing else; so \<open>invalidate()\<close> after
  \<open>addListener(l)\<close> leaves in these registries what was there before except \<open>l\<close> and
  the listeners passed earlier, and leaves every other registry as it was.
\<close>

theorem expression_listeners:
  assumes "expressions (mediators s (fst h)) (snd h) = Some e"
  shows "(\<forall>w g. listenersOf (addListener h l s) w g =
            (if (g, w) \<in> set (mediatorsForParams e) then setAdd l (listenersOf s w g)
             else listenersOf s w g))
       \<and> (\<forall>(g, w) \<in> set (mediatorsForParams e). l \<in> set (listenersOf (addListener h l s) w g))
       \<and> (\<forall>w g. listenersOf (invalidate h s) w g =
            (if (g, w) \<in> set (mediatorsForParams e)
             then filter (\<lambda>x. x \<notin> set (myListeners e)) (listenersOf s w g)
             else listenersOf s w g))
       \<and> (\<forall>w g. listenersOf (invalidate h (addListener h l s)) w g =
            (if (g, w) \<in> set (mediatorsForParams e)
             then filter (\<lambda>x. x \<noteq> l \<and> x \<notin> set (myListeners e)) (listenersOf s w g)
             else listenersOf s w g))"
proof -
  let ?bs = "mediatorsForParams e"
  let ?s1 = "addListener h l s"
  have a: "listenersOf ?s1 w g =
            (if (g, w) \<in> set ?bs then setAdd l (listenersOf s w g) else listenersOf s w g)" for w g
    using assms by (simp add: addListener_def listenersOf_fold_addListenerStep)
  have b: "\<forall>(g, w) \<in> set ?bs. l \<in> set (listenersOf ?s1 w g)"
    using a by (auto simp: setAdd_member)
  have c: "listenersOf (invalidate h s) w g =
            (if (g, w) \<in> set ?bs then filter (\<lambda>x. x \<notin> set (myListeners e)) (listenersOf s w g)
             else listenersOf s w g)" for w g
    using assms by (simp add: invalidate_def listenersOf_fold_invalidateStep)
  have d: "listenersOf (invalidate h ?s1) w g =
            (if (g, w) \<in> set ?bs
             then filter (\<lambda>x. x \<noteq> l \<and> x \<notin> set (myListeners e)) (listenersOf s w g)
             else listenersOf s w g)" for w g
  proof (cases "?bs = []")
    case True
    then have "?s1 = s" using assms by (simp add: addListener_def)
    then show ?thesis using True c [of w g] by simp
  next
    case False
    have e1: "expressions (mediators ?s1 (fst h)) (snd h) =
          Some (e\<lparr>myListeners := setAdd l (myListeners e)\<rparr>)"
      using assms expressions_fold_addListenerStep [OF assms False] by (simp add: addListener_def)
    show ?thesis
      by (simp add: invalidate_def e1 listenersOf_fold_invalidateStep a filter_setAdd)
  qed
  from a b c d show ?thesis by blast
qed

theorem expression_listeners_witness:
  "expressions (mediators exampleExpression [0]) ''a''
     = Some \<lparr>mediatorsForParams = [(''a'', [])], myListeners = []\<rparr>
   \<and> listenersOf (addListener ([0], ''a'') \<lparr>lid = 7, act = Callback\<rparr> exampleExpression) [] ''a''
       = [\<lparr>lid = 7, act = Callback\<rparr>]
   \<and> listenersOf (invalidate ([0], ''a'')
         (addListener ([0], ''a'') \<lparr>lid = 7, act = Callback\<rparr> exampleExpression)) [] ''a'' = []"
proof -
  have h: "expressions (mediators exampleExpression (fst ([0], ''a''))) (snd ([0], ''a''))
     = Some \<lparr>mediatorsForParams = [(''a'', [])], myListeners = []\<rparr>"
    by (simp add: exampleExpression_def updMediator_def)
  show ?thesis
    using h expression_listeners [OF h, of "\<lparr>lid = 7, act = Callback\<rparr>"]
    by (simp add: setAdd_def listenersOf_def exampleExpression_def updMediator_def newState_def
        newMediator_def)
qed

text \<open>
  Claim C3 as stated fails when two expressions are given the same callback. The
  expression \<open>a+a\<close> registers the callback 7 for \<open>a\<close> at the root; the expression
  \<open>a\<close> is given the same callback, which adds no entry, and is then invalidated: the
  registry of \<open>a\<close> is empty, although \<open>a+a\<close> registered the callback and still holds
  it in its \<open>myListeners\<close>.
\<close>

theorem expression_listeners_shared_callback:
  "observe (\<lambda>s. listenersOf s [] ''a'')
     (runCalls exampleCreateFunction 0
        [AllocateSetter [] ''a'' (JNum 1),
         CreateExpression [0] ''a'',
         CreateExpression [0] ''a+a'',
         AddListener ([0], ''a+a'') \<lparr>lid = 7, act = Callback\<rparr>]
        newState)
     = Some [\<lparr>lid = 7, act = Callback\<rparr>]
   \<and> observe (\<lambda>s. (listenersOf s [] ''a'',
                    map_option myListeners (expressions (mediators s [0]) ''a+a'')))
     (runCalls exampleCreateFunction 0
        [AllocateSetter [] ''a'' (JNum 1),
         CreateExpression [0] ''a'',
         CreateExpression [0] ''a+a'',
         AddListener ([0], ''a+a'') \<lparr>lid = 7, act = Callback\<rparr>,
         AddListener ([0], ''a'') \<lparr>lid = 7, act = Callback\<rparr>,
         Invalidate ([0], ''a'')]
        newState)
     = Some ([], Some [\<lparr>lid = 7, act = Callback\<rparr>])"
  by (simp add: mdefs)

subsection \<open>Batched property changes\<close>

lemma sameTick_refl: "sameTick s s"
  by (simp add: sameTick_def)

lemma sameTick_trans: "sameTick s s1 \<Longrightarrow> sameTick s1 s2 \<Longrightarrow> sameTick s s2"
  unfolding sameTick_def by (metis append.assoc le_trans)

lemma batching_newState: "batching newState"
  by (simp add: batching_def newState_def listenersOf_def newMediator_def)

lemma batching_updMediator:
  assumes "\<And>md. paramListeners (f md) = paramListeners md"
  shows "batching (updMediator m f s) = batching s"
proof -
  have "listenersOf (updMediator m f s) = listenersOf s"
    by (simp add: fun_eq_iff updMediator_def listenersOf_def assms)
  moreover have "nextId (updMediator m f s) = nextId s" "microtasks (updMediator m f s) = microtasks s"
    "alteredProps (updMediator m f s) = alteredProps s"
    by (simp_all add: updMediator_def)
  ultimately show ?thesis by (simp add: batching_def)
qed

lemma sameTick_updMediator: "sameTick s (updMediator m f s)"
  by (simp add: sameTick_def updMediator_def)

lemma listenersOf_updMediator:
  assumes "\<And>md. paramListeners (f md) = paramListeners md"
  shows "listenersOf (updMediator m f s) = listenersOf s"
  by (simp add: fun_eq_iff updMediator_def listenersOf_def assms)

lemma batchPropertyChange_fields:
  "alteredProps (batchPropertyChange a key s) = (alteredProps s)(a := alteredProps s a @ [key])"
  "microtasks (batchPropertyChange a key s)
     = (if alteredProps s a = [] then microtasks s @ [Flush a] else microtasks s)"
  "deliveries (batchPropertyChange a key s) = deliveries s"
  "nextId (batchPropertyChange a key s) = nextId s"
  "mediators (batchPropertyChange a key s) = mediators s"
  by (simp_all add: batchPropertyChange_def Let_def)

lemma listenersOf_batchPropertyChange:
  "listenersOf (batchPropertyChange a key s) = listenersOf s"
  by (simp add: fun_eq_iff listenersOf_def batchPropertyChange_fields)

lemma batching_batchPropertyChange:
  assumes "batching s" and "a < nextId s"
  shows "batching (batchPropertyChange a key s)"
  using assms
  by (auto simp: batching_def batchPropertyChange_fields listenersOf_batchPropertyChange)

lemma sameTick_batchPropertyChange: "sameTick s (batchPropertyChange a key s)"
  by (simp add: sameTick_def batchPropertyChange_fields)

lemma quiet_trans: "quiet s s1 \<Longrightarrow> quiet s1 s2 \<Longrightarrow> quiet s s2"
  by (auto simp: quiet_def intro: sameTick_trans)

lemma listeners_batching:
  "batching s \<Longrightarrow> setter cf k m n v s = Some s' \<Longrightarrow> quiet s s'"
  "batching s \<Longrightarrow> \<forall>l \<in> set ls. knownActivation (nextId s) l \<Longrightarrow>
     callListeners cf k ls s = Some s' \<Longrightarrow> quiet s s'"
  "batching s \<Longrightarrow> knownActivation (nextId s) l \<Longrightarrow>
     callListener cf k l s = Some s' \<Longrightarrow> quiet s s'"
proof (induction cf k m n v s and cf k ls s and cf k l s arbitrary: s' and s' and s'
    rule: setter_callListeners_callListener.induct)
  case (1 cf k m paramName v s)
  show ?case
  proof (cases "v \<noteq> getValue s m paramName")
    case True
    let ?s1 = "updMediator m (\<lambda>md. md\<lparr>paramValues := (paramValues md)(paramName \<mapsto> v)\<rparr>) s"
    have b1: "batching ?s1" using "1.prems"(1) by (simp add: batching_updMediator)
    have l1: "listenersOf ?s1 = listenersOf s" by (simp add: listenersOf_updMediator)
    have n1: "nextId ?s1 = nextId s" by (simp add: updMediator_def)
    have q1: "quiet s ?s1" by (simp add: quiet_def b1 l1 n1 sameTick_updMediator)
    show ?thesis
    proof (cases "paramListeners (mediators ?s1 m) paramName")
      case None
      with True "1.prems"(2) have "s' = ?s1" by (simp add: Let_def)
      with q1 show ?thesis by simp
    next
      case (Some ls)
      with True "1.prems"(2) have c: "callListeners cf k ls ?s1 = Some s'" by (simp add: Let_def)
      from Some have "ls = listenersOf ?s1 m paramName" by (simp add: listenersOf_def)
      with b1 have k: "\<forall>l \<in> set ls. knownActivation (nextId ?s1) l" by (simp add: batching_def)
      from "1.IH" [OF refl True refl Some b1 k c] have "quiet ?s1 s'" .
      with q1 show ?thesis by (rule quiet_trans)
    qed
  next
    case False
    with "1.prems" show ?thesis by (simp add: quiet_def sameTick_refl)
  qed
next
  case (2 cf k s)
  then show ?case by (simp add: quiet_def sameTick_refl)
next
  case (3 cf k l ls s)
  from "3.prems"(3) obtain s1 where a: "callListener cf k l s = Some s1"
    and b: "callListeners cf k ls s1 = Some s'"
    by (auto split: option.splits)
  from "3.prems"(2) have kl: "knownActivation (nextId s) l" by simp
  from "3.IH"(1) [OF "3.prems"(1) kl a] have q: "quiet s s1" .
  then have b1: "batching s1" and n1: "nextId s1 = nextId s" by (simp_all add: quiet_def)
  from "3.prems"(2) n1 have k1: "\<forall>l \<in> set ls. knownActivation (nextId s1) l" by simp
  from "3.IH"(2) [OF a b1 k1 b] have "quiet s1 s'" .
  with q show ?case by (rule quiet_trans)
next
  case (4 cf l s)
  then show ?case by simp
next
  case (5 cf k l s)
  show ?case
  proof (cases "act l")
    case Callback
    with "5.prems" have s': "s' = s\<lparr>calls := calls s @ [lid l]\<rparr>" by simp
    have "listenersOf s' = listenersOf s" by (simp add: s' fun_eq_iff listenersOf_def)
    with "5.prems"(1) show ?thesis by (simp add: quiet_def sameTick_def batching_def s')
  next
    case (Reapply m n e)
    with "5.prems"(3) have "setter cf k m n (callExpr cf s (m, e)) s = Some s'" by simp
    from "5.IH" [OF Reapply "5.prems"(1) this] show ?thesis .
  next
    case (BatchProp a key)
    with "5.prems"(3) have s': "s' = batchPropertyChange a key s" by simp
    from BatchProp "5.prems"(2) have "a < nextId s" by (simp add: knownActivation_def)
    from batching_batchPropertyChange [OF "5.prems"(1) this] show ?thesis
      by (simp add: quiet_def s' sameTick_batchPropertyChange listenersOf_batchPropertyChange
          batchPropertyChange_fields)
  qed
qed

lemma quiet_tickStep: "quiet s s' \<Longrightarrow> tickStep s s'"
  by (simp add: quiet_def tickStep_def)

lemma tickStep_refl: "batching s \<Longrightarrow> tickStep s s"
  by (simp add: tickStep_def sameTick_refl)

lemma tickStep_trans: "tickStep s s1 \<Longrightarrow> tickStep s1 s2 \<Longrightarrow> tickStep s s2"
  by (auto simp: tickStep_def intro: sameTick_trans)

lemma knownActivation_mono: "knownActivation n l \<Longrightarrow> n \<le> n' \<Longrightarrow> knownActivation n' l"
  by (auto simp: knownActivation_def split: action.splits)

lemma quiet_updMediator:
  assumes "batching s" and "\<And>md. paramListeners (f md) = paramListeners md"
  shows "quiet s (updMediator m f s)"
proof -
  have "nextId (updMediator m f s) = nextId s" by (simp add: updMediator_def)
  with assms(1) show ?thesis
    by (simp add: quiet_def batching_updMediator [OF assms(2)] listenersOf_updMediator [OF assms(2)]
        sameTick_updMediator)
qed

lemma allocateSetter_quiet:
  assumes "batching s" and "allocateSetter cf k m n v s = Some (Inr (s', f))"
  shows "quiet s s'"
proof -
  from assms(2) obtain s1 where a: "setter cf k m n v s = Some s1"
    and s': "s' = updMediator m
                    (\<lambda>md. md\<lparr>allocatedSetters := (allocatedSetters md)(n \<mapsto> RealSetter m n)\<rparr>) s1"
    by (auto simp: allocateSetter_def split: if_splits option.splits)
  from listeners_batching(1) [OF assms(1) a] have q: "quiet s s1" .
  then have "batching s1" by (simp add: quiet_def)
  then have "quiet s1 s'" unfolding s' by (rule quiet_updMediator) simp
  with q show ?thesis by (rule quiet_trans)
qed

lemma createExpression_quiet:
  assumes "batching s" and "createExpression cf m src s = Inr (s', h)"
  shows "quiet s s'"
proof (cases "expressions (mediators s m) src \<noteq> None")
  case True
  with assms show ?thesis by (simp add: createExpression_def quiet_def sameTick_refl)
next
  case False
  with assms(2) obtain mfp where
    s': "s' = updMediator m
                (\<lambda>md. md\<lparr>expressions :=
                   (expressions md)(src \<mapsto> \<lparr>mediatorsForParams = mfp, myListeners = []\<rparr>)\<rparr>) s"
    by (auto simp: createExpression_def split: sum.splits)
  show ?thesis unfolding s' by (rule quiet_updMediator [OF assms(1)]) simp
qed

lemma addListenerStep_fields:
  "alteredProps (addListenerStep h l pm s) = alteredProps s"
  "microtasks (addListenerStep h l pm s) = microtasks s"
  "deliveries (addListenerStep h l pm s) = deliveries s"
  "nextId (addListenerStep h l pm s) = nextId s"
  by (cases pm; simp add: addListenerStep_def Let_def updMediator_def)+

lemma fold_addListenerStep_fields:
  "alteredProps (fold (addListenerStep h l) bs s) = alteredProps s"
  "microtasks (fold (addListenerStep h l) bs s) = microtasks s"
  "deliveries (fold (addListenerStep h l) bs s) = deliveries s"
  "nextId (fold (addListenerStep h l) bs s) = nextId s"
  by (induction bs arbitrary: s; simp add: addListenerStep_fields)+

lemma addListener_fields:
  "alteredProps (addListener h l s) = alteredProps s"
  "microtasks (addListener h l s) = microtasks s"
  "deliveries (addListener h l s) = deliveries s"
  "nextId (addListener h l s) = nextId s"
  by (simp_all add: addListener_def fold_addListenerStep_fields split: option.splits)

lemma listenersOf_addListener_subset:
  "set (listenersOf (addListener h l s) w g) \<subseteq> insert l (set (listenersOf s w g))"
  by (auto simp: addListener_def listenersOf_fold_addListenerStep setAdd_def
      split: option.splits if_splits)

lemma addListener_batching:
  assumes "batching s" and "knownActivation (nextId s) l"
  shows "batching (addListener h l s)"
  using assms listenersOf_addListener_subset [of h l s]
  by (simp add: batching_def addListener_fields) blast

lemma addListener_tickStep:
  assumes "batching s" and "knownActivation (nextId s) l"
  shows "tickStep s (addListener h l s)"
  using addListener_batching [OF assms]
  by (simp add: tickStep_def sameTick_def addListener_fields)

lemma invalidateStep_fields:
  "alteredProps (invalidateStep mine pm s) = alteredProps s"
  "microtasks (invalidateStep mine pm s) = microtasks s"
  "deliveries (invalidateStep mine pm s) = deliveries s"
  "nextId (invalidateStep mine pm s) = nextId s"
  by (cases pm; simp add: invalidateStep_def Let_def updMediator_def)+

lemma fold_invalidateStep_fields:
  "alteredProps (fold (invalidateStep mine) bs s) = alteredProps s"
  "microtasks (fold (invalidateStep mine) bs s) = microtasks s"
  "deliveries (fold (invalidateStep mine) bs s) = deliveries s"
  "nextId (fold (invalidateStep mine) bs s) = nextId s"
  by (induction bs arbitrary: s; simp add: invalidateStep_fields)+

lemma invalidate_fields:
  "alteredProps (invalidate h s) = alteredProps s"
  "microtasks (invalidate h s) = microtasks s"
  "deliveries (invalidate h s) = deliveries s"
  "nextId (invalidate h s) = nextId s"
  by (simp_all add: invalidate_def fold_invalidateStep_fields split: option.splits)

lemma listenersOf_invalidate_subset:
  "set (listenersOf (invalidate h s) w g) \<subseteq> set (listenersOf s w g)"
  by (auto simp: invalidate_def listenersOf_fold_invalidateStep split: option.splits if_splits)

lemma invalidate_tickStep:
  assumes "batching s"
  shows "tickStep s (invalidate h s)"
  using assms listenersOf_invalidate_subset [of h s]
  by (simp add: tickStep_def sameTick_def batching_def invalidate_fields) blast

lemma batching_nextId:
  assumes "batching s"
  shows "batching (s\<lparr>nextId := Suc (nextId s)\<rparr>)"
proof -
  have "listenersOf (s\<lparr>nextId := Suc (nextId s)\<rparr>) = listenersOf s"
    by (simp add: fun_eq_iff listenersOf_def)
  with assms show ?thesis
    by (auto simp: batching_def intro: knownActivation_mono [where n = "nextId s"])
qed

lemma tickStep_nextId: "batching s \<Longrightarrow> tickStep s (s\<lparr>nextId := Suc (nextId s)\<rparr>)"
  by (simp add: tickStep_def batching_nextId sameTick_def)

lemma registerParam_tickStep:
  assumes "batching s" and "registerParam cf k m param s = Some (Inr (s', f))"
  shows "tickStep s s'"
proof -
  let ?cfg = "updMediator m
     (\<lambda>md. md\<lparr>paramConfigs := (paramConfigs md)(param_name param \<mapsto> param)\<rparr>)"
  have cfg: "tickStep t (?cfg t)" if "batching t" for t
    by (rule quiet_tickStep, rule quiet_updMediator [OF that]) simp
  show ?thesis
  proof (cases "param_value param")
    case (Some v)
    with assms(2) obtain s1 g where a: "allocateSetter cf k m (param_name param) v s = Some (Inr (s1, g))"
      and s': "s' = ?cfg s1"
      by (auto simp: registerParam_def Let_def split: if_splits option.splits sum.splits)
    from allocateSetter_quiet [OF assms(1) a] have q: "tickStep s s1" by (rule quiet_tickStep)
    then have "batching s1" by (simp add: tickStep_def)
    from tickStep_trans [OF q cfg [OF this]] show ?thesis by (simp add: s')
  next
    case None
    show ?thesis
    proof (cases "param_expr param")
      case n: None
      with None assms(2) have "s' = ?cfg s" by (simp add: registerParam_def Let_def)
      with cfg [OF assms(1)] show ?thesis by simp
    next
      case (Some src)
      with None assms(2) obtain s1 expr s2 g where c: "createExpression cf m src s = Inr (s1, expr)"
        and a: "allocateSetter cf k m (param_name param) (callExpr cf s1 expr) s1 = Some (Inr (s2, g))"
        and s': "s' = ?cfg (addListener expr \<lparr>lid = nextId s2, act = Reapply m (param_name param) src\<rparr>
                          (s2\<lparr>nextId := Suc (nextId s2)\<rparr>))"
        by (auto simp: registerParam_def Let_def split: if_splits option.splits sum.splits)
      from createExpression_quiet [OF assms(1) c] have q1: "tickStep s s1" by (rule quiet_tickStep)
      then have b1: "batching s1" by (simp add: tickStep_def)
      from allocateSetter_quiet [OF b1 a] have q2: "tickStep s1 s2" by (rule quiet_tickStep)
      then have b2: "batching s2" by (simp add: tickStep_def)
      let ?s3 = "s2\<lparr>nextId := Suc (nextId s2)\<rparr>"
      let ?l = "\<lparr>lid = nextId s2, act = Reapply m (param_name param) src\<rparr>"
      have q3: "tickStep s2 ?s3" by (rule tickStep_nextId [OF b2])
      then have b3: "batching ?s3" by (simp add: tickStep_def)
      have "knownActivation (nextId ?s3) ?l" by (simp add: knownActivation_def)
      from addListener_tickStep [OF b3 this] have q4: "tickStep ?s3 (addListener expr ?l ?s3)" .
      then have "batching (addListener expr ?l ?s3)" by (simp add: tickStep_def)
      from cfg [OF this] have q5: "tickStep (addListener expr ?l ?s3) s'" by (simp add: s')
      from q1 q2 q3 q4 q5 show ?thesis by (blast intro: tickStep_trans)
    qed
  qed
qed

lemma activateProps_tickStep:
  "batching s \<Longrightarrow> a < nextId s \<Longrightarrow> activateProps cf m a hl props s = Inr s' \<Longrightarrow> tickStep s s'"
proof (induction cf m a hl props s arbitrary: s' rule: activateProps.induct)
  case (1 cf m a hasListener s)
  then show ?case by (simp add: tickStep_refl)
next
  case (2 cf m a hasListener key v props s)
  then show ?case by simp
next
  case (3 cf m a hasListener key src props s)
  from "3.prems"(3) obtain s1 fn where c: "createExpression cf m src s = Inr (s1, fn)"
    by (auto split: sum.splits)
  from createExpression_quiet [OF "3.prems"(1) c] have q1: "quiet s s1" .
  then have b1: "batching s1" and n1: "nextId s1 = nextId s" by (simp_all add: quiet_def)
  show ?case
  proof (cases hasListener)
    case True
    let ?s2 = "s1\<lparr>nextId := nextId s1 + 1\<rparr>"
    let ?l = "\<lparr>lid = nextId s1, act = BatchProp a key\<rparr>"
    let ?s3 = "addListener fn ?l ?s2"
    from True c "3.prems"(3) have r: "activateProps cf m a hasListener props ?s3 = Inr s'"
      by (simp add: Let_def)
    have q2: "tickStep s1 ?s2" using tickStep_nextId [OF b1] by simp
    then have b2: "batching ?s2" by (simp add: tickStep_def)
    have "knownActivation (nextId ?s2) ?l" using "3.prems"(2) n1 by (simp add: knownActivation_def)
    from addListener_tickStep [OF b2 this] have q3: "tickStep ?s2 ?s3" .
    then have b3: "batching ?s3" by (simp add: tickStep_def)
    have n3: "a < nextId ?s3" using "3.prems"(2) n1 by (simp add: addListener_fields)
    from "3.IH"(1) [OF c refl True refl refl b3 n3 r] have "tickStep ?s3 s'" .
    with quiet_tickStep [OF q1] q2 q3 show ?thesis by (blast intro: tickStep_trans)
  next
    case False
    with c "3.prems"(3) have r: "activateProps cf m a hasListener props s1 = Inr s'" by simp
    from "3.prems"(2) n1 have "a < nextId s1" by simp
    from "3.IH"(2) [OF c refl False b1 this r] have "tickStep s1 s'" .
    with quiet_tickStep [OF q1] show ?thesis by (rule tickStep_trans)
  qed
qed

lemma activateExprRefProps_tickStep:
  assumes "batching s" and "activateExprRefProps cf m props hl s = Inr (s', a)"
  shows "tickStep s s'"
proof -
  let ?s0 = "s\<lparr>nextId := nextId s + 1, alteredProps := (alteredProps s)(nextId s := [])\<rparr>"
  from assms(1) have "alteredProps s (nextId s) = []" by (simp add: batching_def)
  then have "(alteredProps s)(nextId s := []) = alteredProps s" by (simp add: fun_eq_iff)
  then have e: "?s0 = s\<lparr>nextId := Suc (nextId s)\<rparr>" by simp
  have q0: "tickStep s ?s0" unfolding e by (rule tickStep_nextId [OF assms(1)])
  then have b0: "batching ?s0" by (simp add: tickStep_def)
  from assms(2) have r: "activateProps cf m (nextId s) hl props ?s0 = Inr s'"
    by (auto simp: activateExprRefProps_def Let_def split: sum.splits)
  have "nextId s < nextId ?s0" by simp
  from activateProps_tickStep [OF b0 this r] q0 show ?thesis by (blast intro: tickStep_trans)
qed

lemma applySetter_tickStep:
  assumes "batching s" and "applySetter cf k f v s = Some s'"
  shows "tickStep s s'"
proof (cases f)
  case (RealSetter m n)
  with assms(2) have "setter cf k m n v s = Some s'" by (simp add: applySetter_def)
  from listeners_batching(1) [OF assms(1) this] show ?thesis by (rule quiet_tickStep)
next
  case NopSetter
  with assms show ?thesis by (simp add: applySetter_def tickStep_refl)
qed

lemma runTask_fields:
  "deliveries (runTask (Flush a) s) = deliveries s @ [(a, alteredProps s a)]"
  "alteredProps (runTask (Flush a) s) = (alteredProps s)(a := [])"
  "nextId (runTask t s) = nextId s"
  "mediators (runTask t s) = mediators s"
  "microtasks (runTask t s) = microtasks s"
  by (simp_all add: runTask_def split: task.splits)

lemma fold_runTask_frame:
  "nextId (fold runTask ts s) = nextId s"
  "mediators (fold runTask ts s) = mediators s"
  by (induction ts arbitrary: s; simp add: runTask_fields)+

lemma fold_runTask:
  "distinct ts \<Longrightarrow>
   deliveries (fold runTask ts s) = deliveries s @ map (flushOf s) ts
   \<and> alteredProps (fold runTask ts s) = (\<lambda>a. if Flush a \<in> set ts then [] else alteredProps s a)"
proof (induction ts arbitrary: s)
  case Nil
  then show ?case by simp
next
  case (Cons t ts)
  obtain a where t: "t = Flush a" by (cases t)
  from Cons.prems have d: "distinct ts" and n: "Flush a \<notin> set ts" by (simp_all add: t)
  have "flushOf (runTask (Flush a) s) u = flushOf s u" if "u \<in> set ts" for u
  proof (cases u)
    case (Flush b)
    with that n have "b \<noteq> a" by auto
    then show ?thesis by (simp add: Flush flushOf_def runTask_fields)
  qed
  then have m: "map (flushOf (runTask (Flush a) s)) ts = map (flushOf s) ts" by simp
  have f: "flushOf s (Flush a) = (a, alteredProps s a)" by (simp add: flushOf_def)
  show ?case
    using Cons.IH [OF d, of "runTask (Flush a) s"]
    by (auto simp: t m f runTask_fields fun_eq_iff)
qed

lemma batching_distinct: "batching s \<Longrightarrow> distinct (microtasks s)"
proof -
  assume "batching s"
  then have c: "count_list (microtasks s) t \<le> 1" for t
    by (cases t) (simp add: batching_def)
  have "distinct xs" if "\<And>t. count_list xs t \<le> 1" for xs :: "task list"
    using that
  proof (induction xs)
    case Nil
    then show ?case by simp
  next
    case (Cons x xs)
    have 1: "count_list xs t \<le> 1" for t using Cons.prems [of t] by (simp split: if_splits)
    have "count_list xs x = 0" using Cons.prems [of x] by simp
    then have "x \<notin> set xs" by (simp add: count_list_0_iff)
    with Cons.IH [OF 1] show ?case by simp
  qed
  with c show ?thesis by blast
qed

lemma runMicrotasks_flush:
  assumes "batching s"
  shows "deliveries (runMicrotasks s) = deliveries s @ map (flushOf s) (microtasks s)"
    and "alteredProps (runMicrotasks s) a = []"
    and "microtasks (runMicrotasks s) = []"
    and "batching (runMicrotasks s)"
proof -
  note f = fold_runTask [OF batching_distinct [OF assms], of s]
  show 1: "deliveries (runMicrotasks s) = deliveries s @ map (flushOf s) (microtasks s)"
    using f by (simp add: runMicrotasks_def)
  have q: "Flush b \<in> set (microtasks s)" if "alteredProps s b \<noteq> []" for b
  proof -
    from assms that have "count_list (microtasks s) (Flush b) = 1" by (simp add: batching_def)
    then show ?thesis by (metis count_list_0_iff zero_neq_one)
  qed
  show 2: "alteredProps (runMicrotasks s) a = []" for a
    using f q [of a] by (auto simp: runMicrotasks_def)
  show 3: "microtasks (runMicrotasks s) = []" by (simp add: runMicrotasks_def)
  have "listenersOf (runMicrotasks s) = listenersOf s"
    by (simp add: fun_eq_iff listenersOf_def runMicrotasks_def fold_runTask_frame)
  moreover have "nextId (runMicrotasks s) = nextId s"
    by (simp add: runMicrotasks_def fold_runTask_frame)
  ultimately show "batching (runMicrotasks s)"
    using assms by (simp add: batching_def 2 3)
qed

lemma map_sum_fst_Inr: "map_sum id fst z = Inr x \<Longrightarrow> \<exists>y. z = Inr (x, y)"
  by (cases z) auto

lemma runCall_tickStep:
  assumes "batching s" and "consumerCall c" and "c \<noteq> EndOfTick"
    and "runCall cf k c s = Some (Inr s')"
  shows "tickStep s s'"
proof (cases c)
  case (AllocateSetter m n v)
  with assms(4) obtain f where "allocateSetter cf k m n v s = Some (Inr (s', f))"
    by (auto dest: map_sum_fst_Inr)
  from allocateSetter_quiet [OF assms(1) this] show ?thesis by (rule quiet_tickStep)
next
  case (RegisterParam m param)
  with assms(4) obtain f where "registerParam cf k m param s = Some (Inr (s', f))"
    by (auto dest: map_sum_fst_Inr)
  from registerParam_tickStep [OF assms(1) this] show ?thesis .
next
  case (ApplySetter f v)
  with assms(4) have "applySetter cf k f v s = Some s'" by auto
  from applySetter_tickStep [OF assms(1) this] show ?thesis .
next
  case (CreateExpression m src)
  with assms(4) obtain h where "createExpression cf m src s = Inr (s', h)"
    by (auto dest: map_sum_fst_Inr)
  from createExpression_quiet [OF assms(1) this] show ?thesis by (rule quiet_tickStep)
next
  case (AddListener h l)
  with assms(2) have "knownActivation (nextId s) l"
    by (auto simp: consumerCall_def consumerListener_def knownActivation_def split: action.splits)
  from addListener_tickStep [OF assms(1) this, of h] AddListener assms(4) show ?thesis by auto
next
  case (Invalidate h)
  with invalidate_tickStep [OF assms(1), of h] assms(4) show ?thesis by auto
next
  case (ActivateExprRefProps m props hl)
  with assms(4) obtain a where "activateExprRefProps cf m props hl s = Inr (s', a)"
    by (auto dest: map_sum_fst_Inr)
  from activateExprRefProps_tickStep [OF assms(1) this] show ?thesis .
next
  case EndOfTick
  with assms(3) show ?thesis by simp
qed

lemma runCall_batching:
  assumes "batching s" and "consumerCall c" and "runCall cf k c s = Some (Inr s')"
  shows "batching s'"
proof (cases "c = EndOfTick")
  case True
  with assms(3) have "s' = runMicrotasks s" by simp
  with runMicrotasks_flush(4) [OF assms(1)] show ?thesis by simp
next
  case False
  from runCall_tickStep [OF assms(1,2) False assms(3)] show ?thesis by (simp add: tickStep_def)
qed

lemma runCalls_batching:
  "batching s \<Longrightarrow> \<forall>c \<in> set cs. consumerCall c \<Longrightarrow> runCalls cf k cs s = Some (Inr s')
     \<Longrightarrow> batching s'"
proof (induction cs arbitrary: s)
  case Nil
  then show ?case by simp
next
  case (Cons c cs)
  from Cons.prems(3) obtain s1 where a: "runCall cf k c s = Some (Inr s1)"
    and b: "runCalls cf k cs s1 = Some (Inr s')"
    by (auto split: option.splits sum.splits)
  from runCall_batching [OF Cons.prems(1) _ a] Cons.prems(2) have "batching s1" by simp
  from Cons.IH [OF this _ b] Cons.prems(2) show ?case by simp
qed

lemma runCalls_tickStep:
  "batching s \<Longrightarrow> \<forall>c \<in> set cs. consumerCall c \<and> c \<noteq> EndOfTick
     \<Longrightarrow> runCalls cf k cs s = Some (Inr s') \<Longrightarrow> tickStep s s'"
proof (induction cs arbitrary: s)
  case Nil
  then show ?case by (simp add: tickStep_refl)
next
  case (Cons c cs)
  from Cons.prems(3) obtain s1 where a: "runCall cf k c s = Some (Inr s1)"
    and b: "runCalls cf k cs s1 = Some (Inr s')"
    by (auto split: option.splits sum.splits)
  from Cons.prems(2) have c: "consumerCall c" "c \<noteq> EndOfTick" by simp_all
  from runCall_tickStep [OF Cons.prems(1) c a] have q: "tickStep s s1" .
  then have "batching s1" by (simp add: tickStep_def)
  from Cons.IH [OF this _ b] Cons.prems(2) have "tickStep s1 s'" by simp
  with q show ?case by (rule tickStep_trans)
qed

lemma runCalls_append:
  "runCalls cf k cs s = Some (Inr s1) \<Longrightarrow> runCalls cf k (cs @ ds) s = runCalls cf k ds s1"
  by (induction cs arbitrary: s) (auto split: option.splits sum.splits)

lemma appended_refl: "appended s s"
  by (simp add: appended_def)

lemma appended_trans: "appended s s1 \<Longrightarrow> appended s1 s2 \<Longrightarrow> appended s s2"
  unfolding appended_def by (metis append.assoc)

lemma listeners_appended:
  "setter cf k m n v s = Some s' \<Longrightarrow> appended s s'"
  "callListeners cf k ls s = Some s' \<Longrightarrow> appended s s'"
  "callListener cf k l s = Some s' \<Longrightarrow> appended s s'"
proof (induction cf k m n v s and cf k ls s and cf k l s arbitrary: s' and s' and s'
    rule: setter_callListeners_callListener.induct)
  case (1 cf k m paramName v s)
  show ?case
  proof (cases "v \<noteq> getValue s m paramName")
    case True
    let ?s1 = "updMediator m (\<lambda>md. md\<lparr>paramValues := (paramValues md)(paramName \<mapsto> v)\<rparr>) s"
    have q1: "appended s ?s1" by (simp add: appended_def updMediator_def)
    show ?thesis
    proof (cases "paramListeners (mediators ?s1 m) paramName")
      case None
      with True "1.prems" have "s' = ?s1" by (simp add: Let_def)
      with q1 show ?thesis by simp
    next
      case (Some ls)
      with True "1.prems" have c: "callListeners cf k ls ?s1 = Some s'" by (simp add: Let_def)
      from "1.IH" [OF refl True refl Some c] have "appended ?s1 s'" .
      with q1 show ?thesis by (rule appended_trans)
    qed
  next
    case False
    with "1.prems" show ?thesis by (simp add: appended_refl)
  qed
next
  case (2 cf k s)
  then show ?case by (simp add: appended_refl)
next
  case (3 cf k l ls s)
  from "3.prems" obtain s1 where a: "callListener cf k l s = Some s1"
    and b: "callListeners cf k ls s1 = Some s'"
    by (auto split: option.splits)
  from "3.IH"(1) [OF a] "3.IH"(2) [OF a b] show ?case by (rule appended_trans)
next
  case (4 cf l s)
  then show ?case by simp
next
  case (5 cf k l s)
  show ?case
  proof (cases "act l")
    case Callback
    with "5.prems" show ?thesis by (auto simp: appended_def)
  next
    case (Reapply m n e)
    with "5.prems" have "setter cf k m n (callExpr cf s (m, e)) s = Some s'" by simp
    from "5.IH" [OF Reapply this] show ?thesis .
  next
    case (BatchProp a key)
    with "5.prems" show ?thesis by (auto simp: appended_def batchPropertyChange_def Let_def)
  qed
qed

lemma callListeners_notifies:
  "callListeners cf k ls s = Some s' \<Longrightarrow> l \<in> set ls \<Longrightarrow> act l = BatchProp a key \<Longrightarrow>
   \<exists>ps. alteredProps s' a = alteredProps s a @ ps \<and> key \<in> set ps"
proof (induction ls arbitrary: s)
  case Nil
  then show ?case by simp
next
  case (Cons x ls)
  from Cons.prems(1) obtain s1 where a: "callListener cf k x s = Some s1"
    and b: "callListeners cf k ls s1 = Some s'"
    by (auto split: option.splits)
  from listeners_appended(3) [OF a] obtain p1 where p1: "alteredProps s1 a = alteredProps s a @ p1"
    by (auto simp: appended_def)
  from listeners_appended(2) [OF b] obtain p2 where p2: "alteredProps s' a = alteredProps s1 a @ p2"
    by (auto simp: appended_def)
  show ?case
  proof (cases "x = l")
    case True
    from a obtain k' where k: "k = Suc k'" by (cases k) auto
    from a True Cons.prems(3) have "s1 = batchPropertyChange a key s" by (simp add: k)
    then have "alteredProps s1 a = alteredProps s a @ [key]"
      by (simp add: batchPropertyChange_def Let_def)
    with p2 have "alteredProps s' a = alteredProps s a @ (key # p2)" by simp
    then show ?thesis by (metis list.set_intros(1))
  next
    case False
    with Cons.prems(2) have "l \<in> set ls" by simp
    from Cons.IH [OF b this Cons.prems(3)] obtain ps where
      "alteredProps s' a = alteredProps s1 a @ ps" "key \<in> set ps" by blast
    with p1 have "alteredProps s' a = alteredProps s a @ (p1 @ ps)" "key \<in> set (p1 @ ps)" by simp_all
    then show ?thesis by blast
  qed
qed

lemma applySetter_notifies:
  assumes "applySetter cf k (RealSetter w g) v s = Some s'" and "v \<noteq> getValue s w g"
    and "l \<in> set (listenersOf s w g)" and "act l = BatchProp a key"
  shows "\<exists>ps. alteredProps s' a = alteredProps s a @ ps \<and> key \<in> set ps"
proof -
  let ?s1 = "updMediator w (\<lambda>md. md\<lparr>paramValues := (paramValues md)(g \<mapsto> v)\<rparr>) s"
  have pl: "paramListeners (mediators ?s1 w) g = paramListeners (mediators s w) g"
    by (simp add: updMediator_def)
  from assms(3) obtain ls where ls: "paramListeners (mediators s w) g = Some ls" and m: "l \<in> set ls"
    by (cases "paramListeners (mediators s w) g") (auto simp: listenersOf_def)
  from assms(1,2) ls pl have c: "callListeners cf k ls ?s1 = Some s'"
    by (simp add: applySetter_def Let_def)
  have "alteredProps ?s1 = alteredProps s" by (simp add: updMediator_def)
  with callListeners_notifies [OF c m assms(4)] show ?thesis by simp
qed

lemma grows_refl: "grows s s"
  by (simp add: grows_def)

lemma grows_trans: "grows s s1 \<Longrightarrow> grows s1 s2 \<Longrightarrow> grows s s2"
  unfolding grows_def by blast

lemma listensTo_grows: "grows s s' \<Longrightarrow> listensTo s h a key \<Longrightarrow> listensTo s' h a key"
  unfolding grows_def listensTo_def by fast

lemma bindingsOf_addListenerStep: "bindingsOf (addListenerStep h l pm s) h' = bindingsOf s h'"
  by (cases pm)
     (auto simp: bindingsOf_def addListenerStep_def Let_def updMediator_def split: option.splits)

lemma bindingsOf_fold_addListenerStep:
  "bindingsOf (fold (addListenerStep h l) bs s) h' = bindingsOf s h'"
  by (induction bs arbitrary: s) (simp_all add: bindingsOf_addListenerStep)

lemma bindingsOf_addListener: "bindingsOf (addListener h l s) h' = bindingsOf s h'"
  by (simp add: addListener_def bindingsOf_fold_addListenerStep split: option.splits)

lemma listenersOf_addListener_mono:
  "set (listenersOf s w g) \<subseteq> set (listenersOf (addListener h l s) w g)"
  by (auto simp: addListener_def listenersOf_fold_addListenerStep setAdd_def split: option.splits)

lemma addListener_grows: "grows s (addListener h l s)"
  using listenersOf_addListener_mono by (simp add: grows_def bindingsOf_addListener)

lemma addListener_registers:
  assumes "bindingsOf s h = Some bs" and "(g, w) \<in> set bs"
  shows "l \<in> set (listenersOf (addListener h l s) w g)"
proof -
  from assms(1) obtain e where e: "expressions (mediators s (fst h)) (snd h) = Some e"
    and bs: "bs = mediatorsForParams e"
    by (auto simp: bindingsOf_def)
  show ?thesis
    using assms(2) by (simp add: addListener_def e bs listenersOf_fold_addListenerStep setAdd_member)
qed

lemma createExpression_grows:
  assumes "createExpression cf m src s = Inr (s1, fn)"
  shows "fn = (m, src)" and "\<exists>bs. bindingsOf s1 fn = Some bs" and "grows s s1"
proof -
  show fn: "fn = (m, src)"
    using assms by (auto simp: createExpression_def split: if_splits sum.splits)
  show "\<exists>bs. bindingsOf s1 fn = Some bs"
    using assms
    by (auto simp: fn createExpression_def bindingsOf_def updMediator_def split: if_splits sum.splits)
  show "grows s s1"
  proof (cases "expressions (mediators s m) src \<noteq> None")
    case True
    with assms show ?thesis by (simp add: createExpression_def grows_refl)
  next
    case False
    with assms obtain mfp where
      s1: "s1 = updMediator m
                (\<lambda>md. md\<lparr>expressions :=
                   (expressions md)(src \<mapsto> \<lparr>mediatorsForParams = mfp, myListeners = []\<rparr>)\<rparr>) s"
      by (auto simp: createExpression_def split: sum.splits)
    have "listenersOf s1 = listenersOf s"
      by (simp add: s1 fun_eq_iff listenersOf_def updMediator_def)
    moreover have "bindingsOf s1 h = Some bs" if "bindingsOf s h = Some bs" for h bs
      using that False by (cases h) (auto simp: s1 bindingsOf_def updMediator_def)
    ultimately show ?thesis by (simp add: grows_def)
  qed
qed

lemma grows_nextId: "grows s (s\<lparr>nextId := n\<rparr>)"
  by (simp add: grows_def bindingsOf_def listenersOf_def)

lemma activateProps_grows:
  "activateProps cf m a hl props s = Inr s' \<Longrightarrow> grows s s'"
proof (induction cf m a hl props s arbitrary: s' rule: activateProps.induct)
  case (1 cf m a hasListener s)
  then show ?case by (simp add: grows_refl)
next
  case (2 cf m a hasListener key v props s)
  then show ?case by simp
next
  case (3 cf m a hasListener key src props s)
  from "3.prems" obtain s1 fn where c: "createExpression cf m src s = Inr (s1, fn)"
    by (auto split: sum.splits)
  note g1 = createExpression_grows(3) [OF c]
  show ?case
  proof (cases hasListener)
    case True
    let ?s2 = "s1\<lparr>nextId := nextId s1 + 1\<rparr>"
    let ?l = "\<lparr>lid = nextId s1, act = BatchProp a key\<rparr>"
    let ?s3 = "addListener fn ?l ?s2"
    from True c "3.prems" have r: "activateProps cf m a hasListener props ?s3 = Inr s'"
      by (simp add: Let_def)
    from "3.IH"(1) [OF c refl True refl refl r] have "grows ?s3 s'" .
    with g1 grows_nextId [of s1 "nextId s1 + 1"] addListener_grows [of ?s2 fn ?l]
    show ?thesis by (blast intro: grows_trans)
  next
    case False
    with c "3.prems" have r: "activateProps cf m a hasListener props s1 = Inr s'" by simp
    from "3.IH"(2) [OF c refl False r] g1 show ?thesis by (blast intro: grows_trans)
  qed
qed

lemma activateProps_registers:
  "activateProps cf m a True props s = Inr s' \<Longrightarrow> (key, ExprRef src) \<in> set props
     \<Longrightarrow> listensTo s' (m, src) a key"
proof (induction cf m a "True" props s arbitrary: s' rule: activateProps.induct)
  case (1 cf m a s)
  then show ?case by simp
next
  case (2 cf m a key' v props s)
  then show ?case by simp
next
  case (3 cf m a key' src' props s)
  from "3.prems"(1) obtain s1 fn where c: "createExpression cf m src' s = Inr (s1, fn)"
    by (auto split: sum.splits)
  let ?s2 = "s1\<lparr>nextId := nextId s1 + 1\<rparr>"
  let ?l = "\<lparr>lid = nextId s1, act = BatchProp a key'\<rparr>"
  let ?s3 = "addListener fn ?l ?s2"
  from c "3.prems"(1) have r: "activateProps cf m a True props ?s3 = Inr s'"
    by (simp add: Let_def)
  show ?case
  proof (cases "(key, ExprRef src) \<in> set props")
    case True
    from "3.hyps"(1) [OF c refl _ refl refl r True] show ?thesis by simp
  next
    case False
    with "3.prems"(2) have k: "key' = key" "src' = src" by simp_all
    from createExpression_grows(1,2) [OF c] obtain bs where fn: "fn = (m, src)"
      and b1: "bindingsOf s1 fn = Some bs"
      by (auto simp: k)
    have b2: "bindingsOf ?s2 fn = Some bs" using b1 by (simp add: bindingsOf_def)
    have b3: "bindingsOf ?s3 fn = Some bs" using b2 by (simp add: bindingsOf_addListener)
    have "\<exists>l \<in> set (listenersOf ?s3 w g). act l = BatchProp a key" if "(g, w) \<in> set bs" for g w
    proof -
      have "act ?l = BatchProp a key" by (simp add: k)
      with addListener_registers [OF b2 that, of ?l] show ?thesis by blast
    qed
    with b3 have "listensTo ?s3 (m, src) a key" by (auto simp: listensTo_def fn)
    with activateProps_grows [OF r] show ?thesis by (rule listensTo_grows)
  qed
qed

lemma activateExprRefProps_registers:
  assumes "activateExprRefProps cf m props True s = Inr (s', a)"
    and "(key, ExprRef src) \<in> set props"
  shows "a = nextId s" and "listensTo s' (m, src) a key"
proof -
  from assms(1) show a: "a = nextId s"
    by (auto simp: activateExprRefProps_def Let_def split: sum.splits)
  from assms(1) have
    "activateProps cf m a True props
       (s\<lparr>nextId := nextId s + 1, alteredProps := (alteredProps s)(nextId s := [])\<rparr>) = Inr s'"
    by (auto simp: activateExprRefProps_def Let_def split: sum.splits)
  from activateProps_registers [OF this assms(2)] show "listensTo s' (m, src) a key" .
qed

lemma filter_flushOf:
  "filter (\<lambda>d. fst d = a) (map (flushOf s) ts)
     = replicate (count_list ts (Flush a)) (a, alteredProps s a)"
proof (induction ts)
  case Nil
  then show ?case by simp
next
  case (Cons t ts)
  obtain b where t: "t = Flush b" by (cases t)
  from Cons show ?case by (auto simp: t flushOf_def)
qed

lemma callListeners_returns:
  "\<forall>l \<in> set ls. \<forall>m n e. act l \<noteq> Reapply m n e \<Longrightarrow>
   \<exists>s'. callListeners cf (Suc k) ls s = Some s'"
proof (induction ls arbitrary: s)
  case Nil
  then show ?case by simp
next
  case (Cons l ls)
  from Cons.prems have "\<forall>m n e. act l \<noteq> Reapply m n e" by simp
  then obtain s1 where a: "callListener cf (Suc k) l s = Some s1"
    by (cases "act l") auto
  from Cons.IH [of s1] Cons.prems obtain s' where "callListeners cf (Suc k) ls s1 = Some s'"
    by auto
  with a show ?case by simp
qed

lemma applySetter_returns:
  assumes "\<forall>l \<in> set (listenersOf t w g). \<forall>m n e. act l \<noteq> Reapply m n e"
  shows "\<exists>t'. applySetter cf (Suc k) (RealSetter w g) v t = Some t'"
proof (cases "v \<noteq> getValue t w g")
  case True
  let ?s1 = "updMediator w (\<lambda>md. md\<lparr>paramValues := (paramValues md)(g \<mapsto> v)\<rparr>) t"
  have pl: "paramListeners (mediators ?s1 w) g = paramListeners (mediators t w) g"
    by (simp add: updMediator_def)
  show ?thesis
  proof (cases "paramListeners (mediators t w) g")
    case None
    with True pl show ?thesis by (simp add: applySetter_def Let_def)
  next
    case (Some ls)
    then have "ls = listenersOf t w g" by (simp add: listenersOf_def)
    with assms callListeners_returns [of ls cf k ?s1] obtain s' where
      "callListeners cf (Suc k) ls ?s1 = Some s'" by auto
    with True pl Some show ?thesis by (simp add: applySetter_def Let_def)
  qed
next
  case False
  then show ?thesis by (simp add: applySetter_def)
qed

text \<open>
  Claim C5, amended. Let \<open>s\<close> be a state that calls of a consumer reach from the initial
  state (whatever is pending and queued there), and \<open>s1\<close> the state after further calls of
  the same tick, before the microtasks run. No listener of an activation is called during
  these calls and every pending list only grows at its end. In \<open>s1\<close> every activation with
  a non-empty pending list has exactly one flush in the queue and every other activation
  none. Running the microtasks calls, for each queued flush in order, the listener of its
  activation with the pending list as it is: once for each activation with changes, with
  one entry for every notification in order of occurrence (a property notified twice
  appears twice), and not at all for the others; afterwards every pending list and the
  queue are empty. A notification appends the property to the pending list of its
  activation and queues the flush exactly when the list was empty before.
  \<open>activateExprRefProps\<close> with a listener registers, for each property that is an ExprRef,
  a closure of the new activation at the mediator bound to every variable of the
  expression; and a setter called with a new value for a parameter appends, for every
  such closure in the registry of the parameter, its property to the pending list of its
  activation; the call returns, with one level of nested calls, when no listener of the
  parameter is the closure of \<open>registerParam\<close> that sets another parameter.
\<close>

theorem batched_flush:
  assumes "\<forall>c \<in> set pre. consumerCall c" and "runCalls cf k pre newState = Some (Inr s)"
    and "\<forall>c \<in> set cs. consumerCall c \<and> c \<noteq> EndOfTick" and "runCalls cf k cs s = Some (Inr s1)"
  shows "deliveries s1 = deliveries s
       \<and> (\<forall>a. \<exists>ps. alteredProps s1 a = alteredProps s a @ ps)
       \<and> (\<forall>a. count_list (microtasks s1) (Flush a) = (if alteredProps s1 a = [] then 0 else 1))
       \<and> runCalls cf k (cs @ [EndOfTick]) s = Some (Inr (runMicrotasks s1))
       \<and> deliveries (runMicrotasks s1) = deliveries s @ map (flushOf s1) (microtasks s1)
       \<and> (\<forall>a. filter (\<lambda>d. fst d = a) (map (flushOf s1) (microtasks s1))
                = (if alteredProps s1 a = [] then [] else [(a, alteredProps s1 a)]))
       \<and> (\<forall>a. alteredProps (runMicrotasks s1) a = [])
       \<and> microtasks (runMicrotasks s1) = []
       \<and> (\<forall>t a key.
             alteredProps (batchPropertyChange a key t) a = alteredProps t a @ [key]
             \<and> microtasks (batchPropertyChange a key t)
                 = (if alteredProps t a = [] then microtasks t @ [Flush a] else microtasks t))
       \<and> (\<forall>t t' m props a key src.
             activateExprRefProps cf m props True t = Inr (t', a) \<and> (key, ExprRef src) \<in> set props
             \<longrightarrow> a = nextId t \<and> listensTo t' (m, src) a key)
       \<and> (\<forall>t t' w g v l a key.
             applySetter cf k (RealSetter w g) v t = Some t' \<and> v \<noteq> getValue t w g
             \<and> l \<in> set (listenersOf t w g) \<and> act l = BatchProp a key
             \<longrightarrow> (\<exists>ps. alteredProps t' a = alteredProps t a @ ps \<and> key \<in> set ps))
       \<and> (\<forall>t w g v.
             (\<forall>l \<in> set (listenersOf t w g). \<forall>m n e. act l \<noteq> Reapply m n e)
             \<longrightarrow> (\<exists>t'. applySetter cf (Suc k) (RealSetter w g) v t = Some t'))"
proof -
  from runCalls_batching [OF batching_newState assms(1,2)] have bs: "batching s" .
  from runCalls_tickStep [OF bs assms(3,4)] have b1: "batching s1" and st: "sameTick s s1"
    by (simp_all add: tickStep_def)
  from st have 1: "deliveries s1 = deliveries s"
    and 2: "\<forall>a. \<exists>ps. alteredProps s1 a = alteredProps s a @ ps"
    by (simp_all add: sameTick_def)
  from b1 have 3: "\<forall>a. count_list (microtasks s1) (Flush a) = (if alteredProps s1 a = [] then 0 else 1)"
    by (simp add: batching_def)
  have 4: "runCalls cf k (cs @ [EndOfTick]) s = Some (Inr (runMicrotasks s1))"
    by (simp add: runCalls_append [OF assms(4)])
  have 5: "deliveries (runMicrotasks s1) = deliveries s @ map (flushOf s1) (microtasks s1)"
    using runMicrotasks_flush(1) [OF b1] 1 by simp
  have 6: "\<forall>a. filter (\<lambda>d. fst d = a) (map (flushOf s1) (microtasks s1))
                = (if alteredProps s1 a = [] then [] else [(a, alteredProps s1 a)])"
    using 3 by (simp add: filter_flushOf)
  have 7: "\<forall>a. alteredProps (runMicrotasks s1) a = []" "microtasks (runMicrotasks s1) = []"
    using runMicrotasks_flush(2,3) [OF b1] by simp_all
  have 8: "\<forall>t a key.
             alteredProps (batchPropertyChange a key t) a = alteredProps t a @ [key]
             \<and> microtasks (batchPropertyChange a key t)
                 = (if alteredProps t a = [] then microtasks t @ [Flush a] else microtasks t)"
    by (simp add: batchPropertyChange_fields)
  have 9: "\<forall>t t' m props a key src.
             activateExprRefProps cf m props True t = Inr (t', a) \<and> (key, ExprRef src) \<in> set props
             \<longrightarrow> a = nextId t \<and> listensTo t' (m, src) a key"
    using activateExprRefProps_registers by blast
  have 10: "\<forall>t t' w g v l a key.
             applySetter cf k (RealSetter w g) v t = Some t' \<and> v \<noteq> getValue t w g
             \<and> l \<in> set (listenersOf t w g) \<and> act l = BatchProp a key
             \<longrightarrow> (\<exists>ps. alteredProps t' a = alteredProps t a @ ps \<and> key \<in> set ps)"
    using applySetter_notifies by blast
  have 11: "\<forall>t w g v.
             (\<forall>l \<in> set (listenersOf t w g). \<forall>m n e. act l \<noteq> Reapply m n e)
             \<longrightarrow> (\<exists>t'. applySetter cf (Suc k) (RealSetter w g) v t = Some t')"
    using applySetter_returns by blast
  from 1 2 3 4 5 6 7 8 9 10 11 show ?thesis by (intro conjI)
qed

theorem batched_flush_witness:
  "observe deliveries
     (runCalls exampleCreateFunction (Suc 0)
        [AllocateSetter [] ''a'' (JNum 1),
         AllocateSetter [] ''b'' (JNum 1),
         ActivateExprRefProps [] [(''size'', ExprRef ''a+b''), (''color'', Plain Null)] True,
         ActivateExprRefProps [] [(''color'', ExprRef ''a'')] True,
         EndOfTick]
        newState)
     = Some []
   \<and> observe (\<lambda>s. (microtasks s, alteredProps s 0, alteredProps s 2))
     (runCalls exampleCreateFunction (Suc 0)
        ([AllocateSetter [] ''a'' (JNum 1),
          AllocateSetter [] ''b'' (JNum 1),
          ActivateExprRefProps [] [(''size'', ExprRef ''a+b''), (''color'', Plain Null)] True,
          ActivateExprRefProps [] [(''color'', ExprRef ''a'')] True,
          EndOfTick]
         @ [ApplySetter (RealSetter [] ''a'') (JNum 10),
            ApplySetter (RealSetter [] ''b'') (JNum 20)])
        newState)
     = Some ([Flush 0, Flush 2], [''size'', ''size''], [''color''])
   \<and> observe deliveries
     (runCalls exampleCreateFunction (Suc 0)
        ([AllocateSetter [] ''a'' (JNum 1),
          AllocateSetter [] ''b'' (JNum 1),
          ActivateExprRefProps [] [(''size'', ExprRef ''a+b''), (''color'', Plain Null)] True,
          ActivateExprRefProps [] [(''color'', ExprRef ''a'')] True,
          EndOfTick]
         @ [ApplySetter (RealSetter [] ''a'') (JNum 10),
            ApplySetter (RealSetter [] ''b'') (JNum 20)]
         @ [EndOfTick])
        newState)
     = Some [(0, [''size'', ''size'']), (2, [''color''])]"
proof -
  let ?cf = exampleCreateFunction
  let ?pre = "[AllocateSetter [] ''a'' (JNum 1),
         AllocateSetter [] ''b'' (JNum 1),
         ActivateExprRefProps [] [(''size'', ExprRef ''a+b''), (''color'', Plain Null)] True,
         ActivateExprRefProps [] [(''color'', ExprRef ''a'')] True,
         EndOfTick]"
  let ?cs = "[ApplySetter (RealSetter [] ''a'') (JNum 10),
            ApplySetter (RealSetter [] ''b'') (JNum 20)]"
  have "\<exists>s. runCalls ?cf (Suc 0) ?pre newState = Some (Inr s) \<and> deliveries s = []"
    by (simp add: mdefs)
  then obtain s where r: "runCalls ?cf (Suc 0) ?pre newState = Some (Inr s)"
    and d: "deliveries s = []"
    by blast
  have "\<exists>s1. runCalls ?cf (Suc 0) (?pre @ ?cs) newState = Some (Inr s1)
                \<and> microtasks s1 = [Flush 0, Flush 2]
                \<and> alteredProps s1 0 = [''size'', ''size''] \<and> alteredProps s1 2 = [''color'']"
    by (simp add: mdefs)
  then obtain s1 where r0: "runCalls ?cf (Suc 0) (?pre @ ?cs) newState = Some (Inr s1)"
    and m: "microtasks s1 = [Flush 0, Flush 2]"
    and p: "alteredProps s1 0 = [''size'', ''size'']" "alteredProps s1 2 = [''color'']"
    by blast
  from r0 have r1: "runCalls ?cf (Suc 0) ?cs s = Some (Inr s1)"
    by (simp only: runCalls_append [OF r])
  have c: "\<forall>c \<in> set ?pre. consumerCall c" by (simp add: consumerCall_def)
  have c1: "\<forall>c \<in> set ?cs. consumerCall c \<and> c \<noteq> EndOfTick" by (simp add: consumerCall_def)
  note th = batched_flush [OF c r c1 r1]
  from th have f: "runCalls ?cf (Suc 0) (?cs @ [EndOfTick]) s = Some (Inr (runMicrotasks s1))"
    by (elim conjE)
  from th have g: "deliveries (runMicrotasks s1) = deliveries s @ map (flushOf s1) (microtasks s1)"
    by (elim conjE)
  have 1: "observe deliveries (runCalls ?cf (Suc 0) ?pre newState) = Some []"
    by (simp only: r) (simp add: observe_def d)
  have "runCalls ?cf (Suc 0) (?pre @ ?cs) newState = Some (Inr s1)"
    by (simp only: runCalls_append [OF r] r1)
  then have 2: "observe (\<lambda>s. (microtasks s, alteredProps s 0, alteredProps s 2))
      (runCalls ?cf (Suc 0) (?pre @ ?cs) newState) = Some ([Flush 0, Flush 2], [''size'', ''size''], [''color''])"
    by (simp only:) (simp add: observe_def m p)
  have "runCalls ?cf (Suc 0) (?pre @ ?cs @ [EndOfTick]) newState = Some (Inr (runMicrotasks s1))"
    by (simp only: runCalls_append [OF r] f)
  then have 3: "observe deliveries (runCalls ?cf (Suc 0) (?pre @ ?cs @ [EndOfTick]) newState)
      = Some [(0, [''size'', ''size'']), (2, [''color''])]"
    by (simp only:) (simp add: observe_def g d m p flushOf_def)
  from 1 2 3 show ?thesis by (intro conjI)
qed

text \<open>
  Claim C5 as stated fails: the list delivered is not deduplicated. The property \<open>size\<close>
  has the expression \<open>a+b\<close>; \<open>a\<close> and \<open>b\<close> are set in the same tick, the listener of
  \<open>size\<close> runs once for each, and the flush delivers \<open>["size", "size"]\<close>.
\<close>

theorem batched_flush_duplicates:
  "observe deliveries
     (runCalls exampleCreateFunction (Suc 0)
        [AllocateSetter [] ''a'' (JNum 1),
         AllocateSetter [] ''b'' (JNum 1),
         ActivateExprRefProps [] [(''size'', ExprRef ''a+b''), (''color'', Plain Null)] True,
         ApplySetter (RealSetter [] ''a'') (JNum 10),
         ApplySetter (RealSetter [] ''b'') (JNum 20),
         EndOfTick]
        newState)
     = Some [(0, [''size'', ''size''])]
   \<and> \<not> distinct [''size'', ''size'']"
  by (simp add: mdefs)

end
